theory Spec2Isabelle
  imports Main "HOL-Library.Word"
begin

section \<open>PairwiseNameComparator: the pairwise name-matching engine\<close>

text \<open>
  A shallow embedding of \<^verbatim>\<open>PairwiseNameComparator.pyx\<close>.

  Conventions of the embedding.
  \<^item> A Python \<^verbatim>\<open>str\<close> is the list of its code points (\<open>int list\<close>); a Python
    \<^verbatim>\<open>bytes\<close> object is a \<open>string\<close> (a list of 8-bit characters).
  \<^item> A value of C type \<^verbatim>\<open>const char*\<close> is the list of bytes in front of its terminating
    NUL. The loop test \<^verbatim>\<open>s[0] != 0\<close> is therefore the test for the end of the list, and the
    coercion of a \<^verbatim>\<open>bytes\<close> object to \<^verbatim>\<open>char*\<close> is \<open>c_str\<close>, which cuts at the first NUL.
  \<^item> \<^verbatim>\<open>unsigned long\<close> and \<^verbatim>\<open>size_t\<close> are 64 bits wide and \<^verbatim>\<open>char\<close> is signed (x86-64
    Linux). The \<^verbatim>\<open>int\<close> counters of words and bytes are unbounded here: they overflow only
    on names of 2 GiB and more.
  \<^item> A raised exception is a value \<open>Inl e\<close>. The module is compiled with
    \<^verbatim>\<open>language_level=3\<close> and without \<^verbatim>\<open>cdivision\<close>, so the C operator \<^verbatim>\<open>%\<close> with a zero
    divisor raises \<^verbatim>\<open>ZeroDivisionError\<close>, and the exception propagates out of every
    \<^verbatim>\<open>cdef\<close> function that is not declared \<^verbatim>\<open>noexcept\<close>.
  \<^item> A loop whose exit depends on the data is a \<^theory_text>\<open>partial_function\<close> in the option monad:
    \<open>None\<close> means that the loop does not return.
  \<^item> The outcome of the \<^verbatim>\<open>malloc\<close> for the copy of a synonym is a parameter of the
    construction of the table (\<open>malloc_ok\<close>), since the code goes on without the synonym
    when it fails. Every other \<^verbatim>\<open>malloc\<close> and \<^verbatim>\<open>realloc\<close> is taken to succeed, but for the
    request that a negative thread count makes.
  \<^item> The fields \<^verbatim>\<open>size\<close> and \<^verbatim>\<open>capacity\<close> of the structs carry a prefix (\<open>ss_\<close>, \<open>tt_\<close>,
    \<open>nps_\<close>), since \<open>size\<close> is a constant of HOL; a C \<^verbatim>\<open>int\<close> that is only tested for zero
    is a \<open>bool\<close>.
\<close>

datatype error = ZeroDivisionError | UnicodeEncodeError | MemoryError

subsection \<open>C-level data structures\<close>

record StringSet =
  strings :: "string list"
  ss_size :: nat
  ss_capacity :: nat

record WordTradeouts =
  word :: "string option"
  tradeouts :: "StringSet option"

record TradeoutTable =
  entries :: "WordTradeouts list"
  tt_capacity :: nat
  tt_size :: nat

record NamePair =
  name1 :: string
  name2 :: string

record NamePairSet =
  pairs :: "NamePair list"
  nps_size :: nat
  nps_capacity :: nat

subsection \<open>String sets and the hash function\<close>

text \<open>\<^verbatim>\<open>string_set_contains\<close>: the first \<open>ss_size\<close> slots are compared with \<^verbatim>\<open>strcmp\<close>.\<close>

definition string_set_contains :: "StringSet \<Rightarrow> string \<Rightarrow> bool" where
  "string_set_contains ss s = list_ex (\<lambda>i. strings ss ! i = s) [0..<ss_size ss]"

text \<open>\<^verbatim>\<open>cdef int c = s[0]\<close>: a signed \<^verbatim>\<open>char\<close> widened to \<^verbatim>\<open>int\<close>.\<close>

definition c_int :: "char \<Rightarrow> int" where
  "c_int c = (let v = of_char c in if 128 \<le> v then v - 256 else v)"

fun hash_loop :: "string \<Rightarrow> 64 word \<Rightarrow> 64 word" where
  "hash_loop [] hash_val = hash_val"
| "hash_loop (c # s) hash_val = hash_loop s ((push_bit 5 hash_val + hash_val) + word_of_int (c_int c))"

definition hash_string :: "string \<Rightarrow> 64 word" where
  "hash_string s = hash_loop s 5381"

subsection \<open>The tradeout table: lookup\<close>

text \<open>
  The probe loop of \<^verbatim>\<open>tradeout_table_lookup\<close>. It leaves at an empty slot, at a slot holding
  the word, or when the index is back at \<open>start_index\<close>. The first index is
  \<^verbatim>\<open>hash_val % tt.capacity\<close>, the remainder of two unsigned 64-bit numbers.
\<close>

partial_function (option) lookup_loop ::
  "TradeoutTable \<Rightarrow> string \<Rightarrow> nat \<Rightarrow> nat \<Rightarrow> StringSet option option" where
  "lookup_loop tt w start_index index =
    (case word (entries tt ! index) of
       None \<Rightarrow> Some None
     | Some k \<Rightarrow>
         if k = w then Some (tradeouts (entries tt ! index))
         else let index' = (index + 1) mod tt_capacity tt in
              if index' = start_index then Some None
              else lookup_loop tt w start_index index')"

declare lookup_loop.simps [code]

definition tradeout_table_lookup ::
  "TradeoutTable \<Rightarrow> string \<Rightarrow> (error + StringSet option) option" where
  "tradeout_table_lookup tt w =
    (let hash_val = hash_string w in
     if tt_capacity tt = 0 then Some (Inl ZeroDivisionError)
     else let index = nat (uint hash_val mod int (tt_capacity tt)) in
          map_option Inr (lookup_loop tt w index index))"

subsection \<open>String utilities\<close>

fun count_words_loop :: "string \<Rightarrow> nat \<Rightarrow> bool \<Rightarrow> nat" where
  "count_words_loop [] count in_word = count"
| "count_words_loop (c # s) count in_word =
    (if c = CHR '' '' then count_words_loop s count False
     else if \<not> in_word then count_words_loop s (count + 1) True
     else count_words_loop s count in_word)"

definition count_words :: "string \<Rightarrow> nat" where
  "count_words s = count_words_loop s 0 False"

text \<open>
  The loop of \<^verbatim>\<open>extract_word\<close>; \<open>out\<close> is the part of the output buffer written so far
  (\<open>out_idx\<close> is its length).
\<close>

fun extract_word_loop :: "string \<Rightarrow> nat \<Rightarrow> nat \<Rightarrow> nat \<Rightarrow> bool \<Rightarrow> string \<Rightarrow> string" where
  "extract_word_loop [] word_index max_len current_word in_word out = out"
| "extract_word_loop (c # s) word_index max_len current_word in_word out =
    (if c = CHR '' '' then
       (if in_word \<and> current_word = word_index then out
        else extract_word_loop s word_index max_len current_word False out)
     else
       (let current_word' = (if \<not> in_word then current_word + 1 else current_word) in
        if current_word' = word_index + 1 then
          (if int (length out) < int max_len - 1
           then extract_word_loop s word_index max_len current_word' True (out @ [c])
           else extract_word_loop s word_index max_len current_word' True out)
        else extract_word_loop s word_index max_len current_word' True out))"

definition extract_word :: "string \<Rightarrow> nat \<Rightarrow> nat \<Rightarrow> string" where
  "extract_word s word_index max_len = extract_word_loop s word_index max_len 0 False []"

subsection \<open>Validation logic\<close>

text \<open>The inner loop \<^verbatim>\<open>for j in range(len_b)\<close> with \<^verbatim>\<open>strcmp\<close>: does it reach its \<^verbatim>\<open>break\<close>?\<close>

definition direct_match :: "string \<Rightarrow> string \<Rightarrow> nat \<Rightarrow> bool" where
  "direct_match word_buf name_b len_b =
    list_ex (\<lambda>j. word_buf = extract_word name_b j 1024) [0..<len_b]"

text \<open>The inner loop with \<^verbatim>\<open>string_set_contains\<close>.\<close>

definition tradeout_match :: "StringSet \<Rightarrow> string \<Rightarrow> nat \<Rightarrow> bool" where
  "tradeout_match ts name_b len_b =
    list_ex (\<lambda>j. string_set_contains ts (extract_word name_b j 1024)) [0..<len_b]"

text \<open>The body of the outer loop: the \<^verbatim>\<open>for\<close> with its \<^verbatim>\<open>else\<close> branch.\<close>

definition word_matches :: "TradeoutTable \<Rightarrow> string \<Rightarrow> string \<Rightarrow> nat \<Rightarrow> (error + bool) option" where
  "word_matches tt word_buf name_b len_b =
    (if direct_match word_buf name_b len_b then Some (Inr True)
     else case tradeout_table_lookup tt word_buf of
            None \<Rightarrow> None
          | Some (Inl e) \<Rightarrow> Some (Inl e)
          | Some (Inr None) \<Rightarrow> Some (Inr False)
          | Some (Inr (Some ts)) \<Rightarrow> Some (Inr (tradeout_match ts name_b len_b)))"

text \<open>The outer loop \<^verbatim>\<open>for i in range(len_a)\<close>, counting the matches.\<close>

fun count_matches ::
  "TradeoutTable \<Rightarrow> string \<Rightarrow> string \<Rightarrow> nat \<Rightarrow> nat list \<Rightarrow> int \<Rightarrow> (error + int) option" where
  "count_matches tt name_a name_b len_b [] matches = Some (Inr matches)"
| "count_matches tt name_a name_b len_b (i # is) matches =
    (case word_matches tt (extract_word name_a i 1024) name_b len_b of
       None \<Rightarrow> None
     | Some (Inl e) \<Rightarrow> Some (Inl e)
     | Some (Inr m) \<Rightarrow>
         count_matches tt name_a name_b len_b is (if m then matches + 1 else matches))"

definition validate_match :: "string \<Rightarrow> string \<Rightarrow> TradeoutTable \<Rightarrow> (error + bool) option" where
  "validate_match name_a name_b tt =
    (let len_a = count_words name_a; len_b = count_words name_b in
     if len_a < 2 \<or> len_b < 2 then Some (Inr False)
     else
       case count_matches tt name_a name_b len_b [0..<len_a] 0 of
         None \<Rightarrow> None
       | Some (Inl e) \<Rightarrow> Some (Inl e)
       | Some (Inr matches_a_in_b) \<Rightarrow>
          (case count_matches tt name_b name_a len_a [0..<len_b] 0 of
             None \<Rightarrow> None
           | Some (Inl e) \<Rightarrow> Some (Inl e)
           | Some (Inr matches_b_in_a) \<Rightarrow>
               (let num_mismatches_a = int len_a - matches_a_in_b;
                    num_mismatches_b = int len_b - matches_b_in_a in
                if len_a = 3 \<and> num_mismatches_a \<noteq> 0 \<and> len_b \<ge> 3 then Some (Inr False)
                else if len_b = 3 \<and> num_mismatches_b \<noteq> 0 \<and> len_a \<ge> 3 then Some (Inr False)
                else if int len_b - num_mismatches_b < 2 \<or> int len_a - num_mismatches_a < 2
                  then Some (Inr False)
                else Some (Inr True))))"


subsection \<open>Python strings\<close>

type_synonym pystr = "int list"

text \<open>
  \<^verbatim>\<open>str.encode('utf-8')\<close>: a surrogate code point raises \<^verbatim>\<open>UnicodeEncodeError\<close>. The code
  points of a \<^verbatim>\<open>str\<close> lie between 0 and 0x10FFFF; the encoding of any other number is an error
  here too.
\<close>

definition encode_code_point :: "int \<Rightarrow> error + string" where
  "encode_code_point cp =
    (if cp < 0 then Inl UnicodeEncodeError
     else if cp < 0x80 then Inr [char_of cp]
     else if cp < 0x800 then Inr [char_of (0xC0 + cp div 64), char_of (0x80 + cp mod 64)]
     else if cp < 0x10000 then
       (if 0xD800 \<le> cp \<and> cp \<le> 0xDFFF then Inl UnicodeEncodeError
        else Inr [char_of (0xE0 + cp div 4096), char_of (0x80 + cp div 64 mod 64),
                  char_of (0x80 + cp mod 64)])
     else if cp < 0x110000 then
       Inr [char_of (0xF0 + cp div 262144), char_of (0x80 + cp div 4096 mod 64),
            char_of (0x80 + cp div 64 mod 64), char_of (0x80 + cp mod 64)]
     else Inl UnicodeEncodeError)"

fun encode_utf8 :: "pystr \<Rightarrow> error + string" where
  "encode_utf8 [] = Inr []"
| "encode_utf8 (cp # s) =
    (case encode_code_point cp of
       Inl e \<Rightarrow> Inl e
     | Inr bs \<Rightarrow> (case encode_utf8 s of Inl e \<Rightarrow> Inl e | Inr r \<Rightarrow> Inr (bs @ r)))"

text \<open>The coercion of a \<^verbatim>\<open>bytes\<close> object to \<^verbatim>\<open>char*\<close>: C reads up to the first NUL.\<close>

definition c_str :: "string \<Rightarrow> string" where
  "c_str bs = takeWhile (\<lambda>c. c \<noteq> CHR 0x00) bs"

text \<open>\<^verbatim>\<open>str.isspace\<close> on one code point, and \<^verbatim>\<open>str.split()\<close> without arguments.\<close>

definition py_isspace :: "int \<Rightarrow> bool" where
  "py_isspace cp =
    ((0x09 \<le> cp \<and> cp \<le> 0x0D) \<or> (0x1C \<le> cp \<and> cp \<le> 0x20) \<or> cp = 0x85 \<or> cp = 0xA0
     \<or> cp = 0x1680 \<or> (0x2000 \<le> cp \<and> cp \<le> 0x200A) \<or> cp = 0x2028 \<or> cp = 0x2029
     \<or> cp = 0x202F \<or> cp = 0x205F \<or> cp = 0x3000)"

fun py_split_loop :: "pystr \<Rightarrow> pystr \<Rightarrow> pystr list" where
  "py_split_loop [] cur = (if cur = [] then [] else [cur])"
| "py_split_loop (cp # s) cur =
    (if py_isspace cp then (if cur = [] then py_split_loop s [] else cur # py_split_loop s [])
     else py_split_loop s (cur @ [cp]))"

definition py_split :: "pystr \<Rightarrow> pystr list" where
  "py_split s = py_split_loop s []"

subsection \<open>The tradeout table: construction\<close>

text \<open>
  \<^verbatim>\<open>create_string_set\<close>: the slots of a fresh array hold nothing yet; no loop reads a slot
  at or beyond \<open>ss_size\<close>.
\<close>

definition create_string_set :: "nat \<Rightarrow> StringSet" where
  "create_string_set initial_capacity =
    \<lparr>strings = replicate initial_capacity [], ss_size = 0, ss_capacity = initial_capacity\<rparr>"

text \<open>The search for a free slot: \<^verbatim>\<open>while tt.entries[index].word != NULL\<close>.\<close>

partial_function (option) find_slot :: "WordTradeouts list \<Rightarrow> nat \<Rightarrow> nat \<Rightarrow> nat option" where
  "find_slot es capacity index =
    (case word (es ! index) of
       None \<Rightarrow> Some index
     | Some k \<Rightarrow> find_slot es capacity ((index + 1) mod capacity))"

declare find_slot.simps [code]

text \<open>
  The loop \<^verbatim>\<open>for match in matches\<close>, with its \<^verbatim>\<open>break\<close> at a full set and its
  \<^verbatim>\<open>continue\<close> when the \<^verbatim>\<open>malloc\<close> for the copy of a synonym returns \<^verbatim>\<open>NULL\<close>. This is the
  one allocation whose failure the code survives, so its outcome is a parameter: \<open>ok j\<close> says
  that the \<^verbatim>\<open>malloc\<close> for the synonym number \<open>j\<close> of the current key succeeds. After a failure
  the slot at \<open>ss_size\<close> holds \<^verbatim>\<open>NULL\<close>; it is not read, and the next synonym is written over it.
\<close>

fun add_matches :: "(nat \<Rightarrow> bool) \<Rightarrow> nat \<Rightarrow> pystr list \<Rightarrow> StringSet \<Rightarrow> error + StringSet" where
  "add_matches ok j [] tradeout_set = Inr tradeout_set"
| "add_matches ok j (match # matches) tradeout_set =
    (case encode_utf8 match of
       Inl e \<Rightarrow> Inl e
     | Inr match_bytes \<Rightarrow>
         if ss_size tradeout_set \<ge> ss_capacity tradeout_set then Inr tradeout_set
         else if \<not> ok j then add_matches ok (j + 1) matches tradeout_set
         else add_matches ok (j + 1) matches
                (tradeout_set\<lparr>strings := (strings tradeout_set)[ss_size tradeout_set := c_str match_bytes],
                               ss_size := ss_size tradeout_set + 1\<rparr>))"

text \<open>The body of the loop \<^verbatim>\<open>for word, matches in word_to_matches.items()\<close>.\<close>

definition insert_word ::
  "(nat \<Rightarrow> bool) \<Rightarrow> TradeoutTable \<Rightarrow> pystr \<times> pystr list \<Rightarrow> (error + TradeoutTable) option" where
  "insert_word ok tt item =
    (case item of (word_str, matches) \<Rightarrow>
     case encode_utf8 word_str of
       Inl e \<Rightarrow> Some (Inl e)
     | Inr word_bytes \<Rightarrow>
        (let word_cstr = c_str word_bytes;
             word_len = length word_bytes;
             hash_val = hash_string word_cstr in
         if tt_capacity tt = 0 then Some (Inl ZeroDivisionError)
         else
           case find_slot (entries tt) (tt_capacity tt)
                  (nat (uint hash_val mod int (tt_capacity tt))) of
             None \<Rightarrow> None
           | Some index \<Rightarrow>
              (let tradeout_set = create_string_set (length matches + 1);
                   tradeout_set' =
                     (if word_len = 1
                      then tradeout_set\<lparr>strings := (strings tradeout_set)[ss_size tradeout_set := word_cstr],
                                          ss_size := ss_size tradeout_set + 1\<rparr>
                      else tradeout_set) in
               case add_matches ok 0 matches tradeout_set' of
                 Inl e \<Rightarrow> Some (Inl e)
               | Inr tradeout_set'' \<Rightarrow>
                   Some (Inr (tt\<lparr>entries := (entries tt)
                                  [index := \<lparr>word = Some word_cstr, tradeouts = Some tradeout_set''\<rparr>]\<rparr>)))))"

text \<open>
  The loop over the items; \<open>i\<close> is the number of the current item, and \<open>malloc_ok i j\<close> is
  the outcome of the \<^verbatim>\<open>malloc\<close> for the synonym number \<open>j\<close> of the item number \<open>i\<close>.
\<close>

fun insert_words ::
  "(nat \<Rightarrow> nat \<Rightarrow> bool) \<Rightarrow> nat \<Rightarrow> (pystr \<times> pystr list) list \<Rightarrow> TradeoutTable \<Rightarrow>
   (error + TradeoutTable) option" where
  "insert_words malloc_ok i [] tt = Some (Inr tt)"
| "insert_words malloc_ok i (item # items) tt =
    (case insert_word (malloc_ok i) tt item of
       None \<Rightarrow> None
     | Some (Inl e) \<Rightarrow> Some (Inl e)
     | Some (Inr tt') \<Rightarrow> insert_words malloc_ok (i + 1) items tt')"

text \<open>
  \<^verbatim>\<open>create_tradeout_table\<close>. The dictionary is the list of its items in iteration order; its
  keys are pairwise distinct.
\<close>

definition create_tradeout_table ::
  "(nat \<Rightarrow> nat \<Rightarrow> bool) \<Rightarrow> (pystr \<times> pystr list) list \<Rightarrow> (error + TradeoutTable) option" where
  "create_tradeout_table malloc_ok word_to_matches =
    (let dict_size = length word_to_matches;
         tt = \<lparr>entries = replicate (dict_size * 2) \<lparr>word = None, tradeouts = None\<rparr>,
               tt_capacity = dict_size * 2, tt_size = dict_size\<rparr>
     in insert_words malloc_ok 0 word_to_matches tt)"

subsection \<open>The parallel matching function\<close>

definition resolve_threads :: "int \<Rightarrow> int \<Rightarrow> int" where
  "resolve_threads num_threads cpu_count =
    (if num_threads = 0 then cpu_count
     else if num_threads = - 1 then max 1 (cpu_count - 1)
     else num_threads)"

text \<open>The filter \<^verbatim>\<open>[n for n in all_names if len(n.split()) >= 2]\<close>.\<close>

definition valid_names :: "pystr list \<Rightarrow> pystr list" where
  "valid_names all_names = filter (\<lambda>n. length (py_split n) \<ge> 2) all_names"

fun encode_names :: "pystr list \<Rightarrow> error + string list" where
  "encode_names [] = Inr []"
| "encode_names (n # ns) =
    (case encode_utf8 n of
       Inl e \<Rightarrow> Inl e
     | Inr b \<Rightarrow> (case encode_names ns of Inl e \<Rightarrow> Inl e | Inr bs \<Rightarrow> Inr (b # bs)))"

text \<open>A fresh per-thread buffer of 1000 slots, and the store of one pair with its doubling.\<close>

definition new_pair_set :: NamePairSet where
  "new_pair_set = \<lparr>pairs = replicate 1000 \<lparr>name1 = [], name2 = []\<rparr>, nps_size = 0, nps_capacity = 1000\<rparr>"

definition store_pair :: "NamePairSet \<Rightarrow> string \<Rightarrow> string \<Rightarrow> NamePairSet" where
  "store_pair buf n1 n2 =
    (let buf' =
       (if nps_size buf \<ge> nps_capacity buf then
          (let new_capacity = nps_capacity buf * 2 in
           buf\<lparr>pairs := pairs buf @ replicate (new_capacity - nps_capacity buf) \<lparr>name1 = [], name2 = []\<rparr>,
               nps_capacity := new_capacity\<rparr>)
        else buf)
     in buf'\<lparr>pairs := (pairs buf')[nps_size buf' := \<lparr>name1 = n1, name2 = n2\<rparr>],
             nps_size := nps_size buf' + 1\<rparr>)"

text \<open>The inner loop \<^verbatim>\<open>for j in range(i + 1, n_names)\<close> of one outer index.\<close>

fun inner_loop ::
  "string list \<Rightarrow> TradeoutTable \<Rightarrow> nat \<Rightarrow> nat list \<Rightarrow> NamePairSet \<Rightarrow> (error + NamePairSet) option" where
  "inner_loop name_ptrs tt i [] buf = Some (Inr buf)"
| "inner_loop name_ptrs tt i (j # js) buf =
    (case validate_match (name_ptrs ! i) (name_ptrs ! j) tt of
       None \<Rightarrow> None
     | Some (Inl e) \<Rightarrow> Some (Inl e)
     | Some (Inr m) \<Rightarrow>
         inner_loop name_ptrs tt i js
           (if m then store_pair buf (name_ptrs ! i) (name_ptrs ! j) else buf))"

text \<open>
  The \<^verbatim>\<open>prange\<close> loop. The OpenMP runtime decides which thread runs which outer index and
  when: \<open>sched\<close> lists the pairs (thread number, outer index) in the order in which the
  iterations run. A thread writes to its own buffer only, so the iterations of different
  threads do not interfere and their interleaving is a sequence. An exception in an iteration
  ends the loop and is raised again behind it.
\<close>

fun run_schedule ::
  "string list \<Rightarrow> TradeoutTable \<Rightarrow> nat \<Rightarrow> (nat \<times> nat) list \<Rightarrow> NamePairSet list \<Rightarrow>
   (error + NamePairSet list) option" where
  "run_schedule name_ptrs tt n_names [] thread_results = Some (Inr thread_results)"
| "run_schedule name_ptrs tt n_names ((tid, i) # sched) thread_results =
    (case inner_loop name_ptrs tt i [i + 1..<n_names] (thread_results ! tid) of
       None \<Rightarrow> None
     | Some (Inl e) \<Rightarrow> Some (Inl e)
     | Some (Inr buf) \<Rightarrow> run_schedule name_ptrs tt n_names sched (thread_results[tid := buf]))"

text \<open>
  The schedules an OpenMP runtime can produce: every outer index runs exactly once, on one
  of the \<open>n_threads\<close> threads.
\<close>

definition valid_schedule :: "nat \<Rightarrow> nat \<Rightarrow> (nat \<times> nat) list \<Rightarrow> bool" where
  "valid_schedule n_threads n_names sched =
    (list_all (\<lambda>(tid, i). tid < n_threads) sched \<and> sort (map snd sched) = [0..<n_names])"

text \<open>The serial collection of the thread buffers, in thread order.\<close>

definition collect_results :: "NamePairSet list \<Rightarrow> nat \<Rightarrow> (string \<times> string) list" where
  "collect_results thread_results n_threads =
    concat (map (\<lambda>tid. map (\<lambda>i. (name1 (pairs (thread_results ! tid) ! i),
                                  name2 (pairs (thread_results ! tid) ! i)))
                         [0..<nps_size (thread_results ! tid)])
                [0..<n_threads])"

text \<open>
  \<^verbatim>\<open>parallel_find_matches\<close>. The argument \<^verbatim>\<open>pair_to_names\<close> is never read and is left out;
  \<open>cpu_count\<close> is the value of \<^verbatim>\<open>multiprocessing.cpu_count()\<close>. A reported name is the C
  string that the pair points to; \<^verbatim>\<open>decode('utf-8')\<close> maps it back to the \<^verbatim>\<open>str\<close> with this
  encoding, one to one. A negative thread count asks \<^verbatim>\<open>malloc\<close> for more than the address
  space, which is the one allocation that fails.
\<close>

definition parallel_find_matches ::
  "(nat \<Rightarrow> nat \<Rightarrow> bool) \<Rightarrow> pystr list \<Rightarrow> (pystr \<times> pystr list) list \<Rightarrow> int \<Rightarrow> int \<Rightarrow>
   (nat \<times> nat) list \<Rightarrow> (error + (string \<times> string) list) option" where
  "parallel_find_matches malloc_ok all_names word_to_matches num_threads cpu_count sched =
    (let n_threads = resolve_threads num_threads cpu_count in
     case create_tradeout_table malloc_ok word_to_matches of
       None \<Rightarrow> None
     | Some (Inl e) \<Rightarrow> Some (Inl e)
     | Some (Inr tt) \<Rightarrow>
        (let n_names = length (valid_names all_names) in
         case encode_names (valid_names all_names) of
           Inl e \<Rightarrow> Some (Inl e)
         | Inr bytes_list \<Rightarrow>
            (let name_ptrs = map c_str bytes_list in
             if n_threads < 0 then Some (Inl MemoryError)
             else
               (let thread_results = replicate (nat n_threads) new_pair_set in
                case run_schedule name_ptrs tt n_names sched thread_results of
                  None \<Rightarrow> None
                | Some (Inl e) \<Rightarrow> Some (Inl e)
                | Some (Inr thread_results') \<Rightarrow>
                    Some (Inr (collect_results thread_results' (nat n_threads)))))))"

subsection \<open>Notions of the specification\<close>

text \<open>
  A name in which every word longer than 1023 bytes is replaced by its first 1023 bytes;
  \<open>n\<close> counts the bytes of the current word that were kept.
\<close>

fun truncate_words_loop :: "string \<Rightarrow> nat \<Rightarrow> string" where
  "truncate_words_loop [] n = []"
| "truncate_words_loop (c # s) n =
    (if c = CHR '' '' then c # truncate_words_loop s 0
     else if n < 1023 then c # truncate_words_loop s (n + 1)
     else truncate_words_loop s n)"

definition truncate_words :: "string \<Rightarrow> string" where
  "truncate_words s = truncate_words_loop s 0"

text \<open>The words of a name: its maximal runs of bytes other than the space.\<close>

fun name_words_loop :: "string \<Rightarrow> string \<Rightarrow> string list" where
  "name_words_loop [] cur = (if cur = [] then [] else [cur])"
| "name_words_loop (c # s) cur =
    (if c = CHR '' '' then (if cur = [] then name_words_loop s [] else cur # name_words_loop s [])
     else name_words_loop s (cur @ [c]))"

definition name_words :: "string \<Rightarrow> string list" where
  "name_words s = name_words_loop s []"

text \<open>The result of a scan as a set: the order of the reported pairs is dropped.\<close>

definition result_set ::
  "(error + (string \<times> string) list) option \<Rightarrow> (error + (string \<times> string) set) option" where
  "result_set r = map_option (map_sum id set) r"


subsection \<open>Notions of the proofs\<close>

text \<open>
  The pairs that a buffer holds, as the collection reads them, and the buffers that
  \<^verbatim>\<open>store_pair\<close> keeps in shape.
\<close>

definition buf_list :: "NamePairSet \<Rightarrow> (string \<times> string) list" where
  "buf_list buf = map (\<lambda>i. (name1 (pairs buf ! i), name2 (pairs buf ! i))) [0..<nps_size buf]"

definition buf_ok :: "NamePairSet \<Rightarrow> bool" where
  "buf_ok buf = (0 < nps_capacity buf \<and> nps_size buf \<le> nps_capacity buf \<and> length (pairs buf) = nps_capacity buf)"

text \<open>
  The inner loop of the outer index \<open>i\<close>: it raises nothing (\<open>row_ok\<close>), and the pairs that
  it stores (\<open>row\<close>); the pairs that the thread \<open>t\<close> stores under a schedule; the result of
  the whole scan, as a set.
\<close>

definition row_ok :: "string list \<Rightarrow> TradeoutTable \<Rightarrow> nat \<Rightarrow> nat list \<Rightarrow> bool" where
  "row_ok name_ptrs tt i js = list_all (\<lambda>j. validate_match (name_ptrs ! i) (name_ptrs ! j) tt \<noteq> Some (Inl ZeroDivisionError)) js"

definition row :: "string list \<Rightarrow> TradeoutTable \<Rightarrow> nat \<Rightarrow> nat list \<Rightarrow> (string \<times> string) list" where
  "row name_ptrs tt i js =
    map (\<lambda>j. (name_ptrs ! i, name_ptrs ! j))
      (filter (\<lambda>j. validate_match (name_ptrs ! i) (name_ptrs ! j) tt = Some (Inr True)) js)"

definition thread_rows ::
  "string list \<Rightarrow> TradeoutTable \<Rightarrow> nat \<Rightarrow> (nat \<times> nat) list \<Rightarrow> nat \<Rightarrow> (string \<times> string) list" where
  "thread_rows name_ptrs tt n_names sched t =
    concat (map (\<lambda>(tid, i). if tid = t then row name_ptrs tt i [i + 1..<n_names] else []) sched)"

definition scan_set :: "string list \<Rightarrow> TradeoutTable \<Rightarrow> nat \<Rightarrow> error + (string \<times> string) set" where
  "scan_set name_ptrs tt n =
    (if \<forall>i<n. row_ok name_ptrs tt i [i + 1..<n]
     then Inr (\<Union>i<n. set (row name_ptrs tt i [i + 1..<n]))
     else Inl ZeroDivisionError)"

text \<open>
  The C string that the code reads from \<^verbatim>\<open>s.encode('utf-8')\<close>, and the length of the encoding
  (the empty string and 0 when \<open>s\<close> has no encoding).
\<close>

definition cstr_of :: "pystr \<Rightarrow> string" where
  "cstr_of s = (case encode_utf8 s of Inl e \<Rightarrow> [] | Inr b \<Rightarrow> c_str b)"

definition utf8_length :: "pystr \<Rightarrow> nat" where
  "utf8_length s = (case encode_utf8 s of Inl e \<Rightarrow> 0 | Inr b \<Rightarrow> length b)"



text \<open>The strings that a tradeout set holds, and the first slot that a word is hashed to.\<close>

definition ss_list :: "StringSet \<Rightarrow> string list" where
  "ss_list ts = take (ss_size ts) (strings ts)"

definition home :: "nat \<Rightarrow> string \<Rightarrow> nat" where
  "home cap k = nat (uint (hash_string k) mod int cap)"

text \<open>
  The invariant of the table under construction: every stored word is reached from its
  first slot over occupied slots only (\<open>table_ok\<close>), and no word is stored in two slots
  (\<open>unique_slots\<close>). \<open>kept_matches\<close> are the synonyms whose \<^verbatim>\<open>malloc\<close> succeeds, and
  \<open>holds\<close> says that the table has a slot for the item of the dictionary with the key \<open>k\<close>
  and the synonyms \<open>ms\<close>.
\<close>

definition occupied :: "TradeoutTable \<Rightarrow> nat set" where
  "occupied tt = {p. p < tt_capacity tt \<and> word (entries tt ! p) \<noteq> None}"

definition slot_keys :: "TradeoutTable \<Rightarrow> string set" where
  "slot_keys tt = {k. \<exists>p<tt_capacity tt. word (entries tt ! p) = Some k}"

definition probe_path :: "TradeoutTable \<Rightarrow> string \<Rightarrow> nat \<Rightarrow> bool" where
  "probe_path tt k p =
    (\<exists>d<tt_capacity tt. p = (home (tt_capacity tt) k + d) mod tt_capacity tt \<and>
       (\<forall>d'<d. word (entries tt ! ((home (tt_capacity tt) k + d') mod tt_capacity tt)) \<noteq> None))"

definition table_ok :: "TradeoutTable \<Rightarrow> bool" where
  "table_ok tt =
    (length (entries tt) = tt_capacity tt \<and>
     (\<forall>p<tt_capacity tt. \<forall>k. word (entries tt ! p) = Some k \<longrightarrow> probe_path tt k p))"

definition unique_slots :: "TradeoutTable \<Rightarrow> bool" where
  "unique_slots tt =
    (\<forall>p<tt_capacity tt. \<forall>q<tt_capacity tt.
       word (entries tt ! p) \<noteq> None \<longrightarrow> word (entries tt ! p) = word (entries tt ! q) \<longrightarrow> p = q)"

fun kept_matches :: "(nat \<Rightarrow> bool) \<Rightarrow> nat \<Rightarrow> 'a list \<Rightarrow> 'a list" where
  "kept_matches ok j [] = []"
| "kept_matches ok j (x # xs) =
    (if ok j then x # kept_matches ok (j + 1) xs else kept_matches ok (j + 1) xs)"

definition holds :: "TradeoutTable \<Rightarrow> (nat \<Rightarrow> bool) \<Rightarrow> pystr \<Rightarrow> pystr list \<Rightarrow> bool" where
  "holds tt ok k ms =
    (\<exists>p<tt_capacity tt. \<exists>ts.
       entries tt ! p = \<lparr>word = Some (cstr_of k), tradeouts = Some ts\<rparr> \<and>
       ss_size ts \<le> length (strings ts) \<and>
       ss_list ts = (if utf8_length k = 1 then [cstr_of k] else []) @
                    map cstr_of (kept_matches ok 0 ms) \<and>
       (\<exists>b. encode_utf8 k = Inr b) \<and> (\<forall>x\<in>set ms. \<exists>b. encode_utf8 x = Inr b))"

subsection \<open>Example data\<close>

text \<open>The run in which every \<^verbatim>\<open>malloc\<close> for a synonym succeeds, and the one in which none does.\<close>

definition all_allocated :: "nat \<Rightarrow> nat \<Rightarrow> bool" where
  "all_allocated i j = True"


text \<open>The table that \<^verbatim>\<open>create_tradeout_table\<close> builds from \<^verbatim>\<open>{"Bob": ["Robert"]}\<close>.\<close>

definition bob_table :: TradeoutTable where
  "bob_table =
    \<lparr>entries = [\<lparr>word = Some ''Bob'',
                 tradeouts = Some \<lparr>strings = [''Robert'', []], ss_size = 1, ss_capacity = 2\<rparr>\<rparr>,
               \<lparr>word = None, tradeouts = None\<rparr>],
     tt_capacity = 2, tt_size = 1\<rparr>"


text \<open>The table that \<^verbatim>\<open>create_tradeout_table\<close> builds from the empty dictionary.\<close>

definition empty_table :: TradeoutTable where
  "empty_table = \<lparr>entries = [], tt_capacity = 0, tt_size = 0\<rparr>"

text \<open>Four names, one of them of a single word, and a dictionary with Bob and John.\<close>

definition ex_names :: "pystr list" where
  "ex_names = [map of_char ''John Smith'', map of_char ''Bob Smith'', map of_char ''Bob A Smith'',
               map of_char ''Madonna'']"

definition ex_dict :: "(pystr \<times> pystr list) list" where
  "ex_dict = [(map of_char ''Bob'', [map of_char ''John'']), (map of_char ''John'', [map of_char ''Bob''])]"


definition eacute_table :: TradeoutTable where
  "eacute_table =
    \<lparr>entries = [\<lparr>word = None, tradeouts = None\<rparr>,
               \<lparr>word = Some [CHR 0xC3, CHR 0xA9],
                 tradeouts = Some \<lparr>strings = [''e'', []], ss_size = 1, ss_capacity = 2\<rparr>\<rparr>],
     tt_capacity = 2, tt_size = 1\<rparr>"



section \<open>Properties\<close>

subsection \<open>Counting words\<close>

lemma count_words_loop_name_words:
  "count_words_loop s count (cur \<noteq> []) + (if cur \<noteq> [] then 1 else 0)
   = count + length (name_words_loop s cur)"
proof (induction s arbitrary: count cur)
  case Nil
  then show ?case by simp
next
  case (Cons c s)
  show ?case
  proof (cases "c = CHR '' ''")
    case True
    from Cons.IH [of count "[]"] True show ?thesis by simp
  next
    case False
    from Cons.IH [of "count + 1" "cur @ [c]"] Cons.IH [of count "cur @ [c]"] False
    show ?thesis by simp
  qed
qed

lemma count_words_name_words: "count_words s = length (name_words s)"
  using count_words_loop_name_words [of s 0 "[]"] by (simp add: count_words_def name_words_def)

subsection \<open>The lookup returns\<close>

lemma lookup_loop_result:
  assumes "start_index < tt_capacity tt" "index < tt_capacity tt"
  shows "\<exists>r. lookup_loop tt w start_index index = Some r \<and>
           (r \<noteq> None \<longrightarrow> (\<exists>p<tt_capacity tt. word (entries tt ! p) = Some w))"
  using assms(2)
proof (induction "if index < start_index then start_index - index else start_index + tt_capacity tt - index"
        arbitrary: index rule: less_induct)
  case less
  let ?next = "(index + 1) mod tt_capacity tt"
  show ?case
  proof (cases "word (entries tt ! index)")
    case None
    then show ?thesis by (subst lookup_loop.simps) simp
  next
    case (Some k)
    show ?thesis
    proof (cases "k = w")
      case True
      with Some less.prems show ?thesis by (subst lookup_loop.simps) auto
    next
      case kw: False
      show ?thesis
      proof (cases "?next = start_index")
        case True
        with Some kw show ?thesis by (subst lookup_loop.simps) (simp add: Let_def)
      next
        case False
        have bound: "?next < tt_capacity tt" using less.prems by simp
        have "(if ?next < start_index then start_index - ?next else start_index + tt_capacity tt - ?next)
              < (if index < start_index then start_index - index else start_index + tt_capacity tt - index)"
        proof (cases "index + 1 < tt_capacity tt")
          case True
          then have "?next = index + 1" by simp
          with False assms(1) less.prems show ?thesis by auto
        next
          case f: False
          with less.prems have "index + 1 = tt_capacity tt" by simp
          then have "?next = 0" by simp
          with False assms(1) less.prems \<open>index + 1 = tt_capacity tt\<close> show ?thesis by auto
        qed
        from less.hyps [OF this bound] obtain r where
          "lookup_loop tt w start_index ?next = Some r"
          "r \<noteq> None \<longrightarrow> (\<exists>p<tt_capacity tt. word (entries tt ! p) = Some w)" by blast
        with Some kw False show ?thesis by (subst lookup_loop.simps) (simp add: Let_def)
      qed
    qed
  qed
qed

lemma lookup_loop_returns:
  assumes "start_index < tt_capacity tt" "index < tt_capacity tt"
  shows "\<exists>r. lookup_loop tt w start_index index = Some r"
  using lookup_loop_result [OF assms] by blast

lemma probe_start_less:
  "0 < c \<Longrightarrow> nat (uint (h :: 64 word) mod int c) < c"
  by (simp add: nat_less_iff)

lemma tradeout_table_lookup_zero:
  "tt_capacity tt = 0 \<Longrightarrow> tradeout_table_lookup tt w = Some (Inl ZeroDivisionError)"
  by (simp add: tradeout_table_lookup_def)

lemma tradeout_table_lookup_pos:
  assumes "0 < tt_capacity tt"
  shows "\<exists>r. tradeout_table_lookup tt w = Some (Inr r)"
proof -
  let ?i = "nat (uint (hash_string w) mod int (tt_capacity tt))"
  have "?i < tt_capacity tt" using assms by (rule probe_start_less)
  from lookup_loop_returns [OF this this] obtain r where "lookup_loop tt w ?i ?i = Some r" ..
  with assms show ?thesis by (simp add: tradeout_table_lookup_def Let_def)
qed

subsection \<open>Counting the matches\<close>

lemma word_matches_direct:
  "direct_match w name_b len_b \<Longrightarrow> word_matches tt w name_b len_b = Some (Inr True)"
  by (simp add: word_matches_def)

lemma word_matches_zero:
  "tt_capacity tt = 0 \<Longrightarrow> \<not> direct_match w name_b len_b \<Longrightarrow>
   word_matches tt w name_b len_b = Some (Inl ZeroDivisionError)"
  by (simp add: word_matches_def tradeout_table_lookup_zero)

lemma word_matches_pos:
  assumes "0 < tt_capacity tt"
  shows "\<exists>m. word_matches tt w name_b len_b = Some (Inr m)"
proof -
  from tradeout_table_lookup_pos [OF assms] obtain r where "tradeout_table_lookup tt w = Some (Inr r)" ..
  then show ?thesis by (cases r) (auto simp: word_matches_def)
qed

lemma count_matches_all_direct:
  "\<forall>i\<in>set is. direct_match (extract_word name_a i 1024) name_b len_b \<Longrightarrow>
   count_matches tt name_a name_b len_b is matches = Some (Inr (matches + int (length is)))"
  by (induction "is" arbitrary: matches) (simp_all add: word_matches_direct)

lemma count_matches_zero:
  "tt_capacity tt = 0 \<Longrightarrow> \<not> (\<forall>i\<in>set is. direct_match (extract_word name_a i 1024) name_b len_b) \<Longrightarrow>
   count_matches tt name_a name_b len_b is matches = Some (Inl ZeroDivisionError)"
proof (induction "is" arbitrary: matches)
  case Nil
  then show ?case by simp
next
  case (Cons i "is")
  show ?case
  proof (cases "direct_match (extract_word name_a i 1024) name_b len_b")
    case True
    with Cons show ?thesis by (simp add: word_matches_direct)
  next
    case False
    with Cons.prems(1) show ?thesis by (simp add: word_matches_zero)
  qed
qed

lemma count_matches_pos:
  assumes "0 < tt_capacity tt"
  shows "\<exists>n. count_matches tt name_a name_b len_b is matches = Some (Inr n)"
proof (induction "is" arbitrary: matches)
  case Nil
  then show ?case by simp
next
  case (Cons i "is")
  from word_matches_pos [OF assms] obtain m
    where "word_matches tt (extract_word name_a i 1024) name_b len_b = Some (Inr m)" ..
  with Cons show ?case by simp
qed

lemma direct_match_self:
  "i < len \<Longrightarrow> direct_match (extract_word name i 1024) name len"
  by (auto simp: direct_match_def list_ex_iff)

lemma validate_match_short:
  "count_words name_a < 2 \<or> count_words name_b < 2 \<Longrightarrow> validate_match name_a name_b tt = Some (Inr False)"
  by (auto simp: validate_match_def Let_def)

subsection \<open>Over-long words\<close>

lemma count_words_loop_truncate:
  "(\<not> in_word \<longrightarrow> n = 0) \<Longrightarrow>
   count_words_loop (truncate_words_loop s n) count in_word = count_words_loop s count in_word"
  by (induction s arbitrary: n count in_word) auto

lemma count_words_truncate: "count_words (truncate_words s) = count_words s"
  by (simp add: count_words_def truncate_words_def count_words_loop_truncate)

lemma extract_word_loop_truncate:
  "n \<le> 1023 \<Longrightarrow> (\<not> in_word \<longrightarrow> n = 0) \<Longrightarrow> (current_word \<le> word_index \<longrightarrow> out = []) \<Longrightarrow>
   (in_word \<and> current_word = word_index + 1 \<longrightarrow> length out = n) \<Longrightarrow>
   extract_word_loop (truncate_words_loop s n) word_index 1024 current_word in_word out
   = extract_word_loop s word_index 1024 current_word in_word out"
proof (induction s arbitrary: n current_word in_word out)
  case Nil
  then show ?case by simp
next
  case (Cons c s)
  show ?case
  proof (cases "c = CHR '' ''")
    case True
    have "extract_word_loop (truncate_words_loop s 0) word_index 1024 current_word False out
          = extract_word_loop s word_index 1024 current_word False out"
      using Cons.prems by (intro Cons.IH) simp_all
    with True show ?thesis by simp
  next
    case False
    let ?cw = "if \<not> in_word then current_word + 1 else current_word"
    show ?thesis
    proof (cases "n < 1023")
      case True
      have a: "extract_word_loop (truncate_words_loop s (n + 1)) word_index 1024 ?cw True (out @ [c])
          = extract_word_loop s word_index 1024 ?cw True (out @ [c])" if "?cw = word_index + 1"
        using Cons.prems True that by (intro Cons.IH) (simp_all split: if_splits)
      have b: "extract_word_loop (truncate_words_loop s (n + 1)) word_index 1024 ?cw True out
          = extract_word_loop s word_index 1024 ?cw True out" if "?cw \<noteq> word_index + 1"
        using Cons.prems True that by (intro Cons.IH) (simp_all split: if_splits)
      have len: "length out < 1023" if "?cw = word_index + 1"
        using Cons.prems True that by (simp split: if_splits)
      from False True a b len show ?thesis by (simp add: Let_def)
    next
      case f: False
      with False Cons.prems have n: "n = 1023" and iw: "in_word" by auto
      have a: "extract_word_loop (truncate_words_loop s n) word_index 1024 current_word True out
          = extract_word_loop s word_index 1024 current_word True out"
        using Cons.prems iw by (intro Cons.IH) simp_all
      have len: "length out = 1023" if "current_word = word_index + 1"
        using Cons.prems n iw that by simp
      from False n iw a len show ?thesis by (simp add: Let_def)
    qed
  qed
qed

lemma extract_word_truncate:
  "extract_word (truncate_words s) word_index 1024 = extract_word s word_index 1024"
  by (simp add: extract_word_def truncate_words_def extract_word_loop_truncate)

lemma direct_match_truncate:
  "direct_match w (truncate_words name_b) len_b = direct_match w name_b len_b"
  by (simp add: direct_match_def extract_word_truncate)

lemma tradeout_match_truncate:
  "tradeout_match ts (truncate_words name_b) len_b = tradeout_match ts name_b len_b"
  by (simp add: tradeout_match_def extract_word_truncate)

lemma word_matches_truncate:
  "word_matches tt w (truncate_words name_b) len_b = word_matches tt w name_b len_b"
  by (simp add: word_matches_def direct_match_truncate tradeout_match_truncate
        cong: option.case_cong sum.case_cong)

lemma count_matches_truncate:
  "count_matches tt (truncate_words name_a) (truncate_words name_b) len_b is matches
   = count_matches tt name_a name_b len_b is matches"
  by (induction "is" arbitrary: matches)
     (simp_all add: word_matches_truncate extract_word_truncate cong: option.case_cong sum.case_cong)

lemma name_words_loop_truncate:
  "n = min (length cur) 1023 \<Longrightarrow>
   name_words_loop (truncate_words_loop s n) (take 1023 cur) = map (take 1023) (name_words_loop s cur)"
proof (induction s arbitrary: cur n)
  case Nil
  then show ?case by simp
next
  case (Cons c s)
  show ?case
  proof (cases "c = CHR '' ''")
    case True
    from Cons.IH [of 0 "[]"] True show ?thesis by simp
  next
    case False
    show ?thesis
    proof (cases "n < 1023")
      case True
      with Cons.prems have len: "length cur < 1023" "n = length cur" by simp_all
      from Cons.IH [of "n + 1" "cur @ [c]"] len False True show ?thesis by simp
    next
      case f: False
      with Cons.prems have len: "1023 \<le> length cur" "n = 1023" by simp_all
      from Cons.IH [of n "cur @ [c]"] len False f show ?thesis by simp
    qed
  qed
qed

lemma name_words_truncate: "name_words (truncate_words s) = map (take 1023) (name_words s)"
  using name_words_loop_truncate [of 0 "[]" s] by (simp add: name_words_def truncate_words_def)

lemma extract_word_loop_later:
  "0 < word_index \<Longrightarrow> current_word < word_index \<or> (current_word = word_index \<and> in_word) \<Longrightarrow>
   extract_word_loop s word_index max_len current_word in_word [] = []"
proof (induction s arbitrary: current_word in_word)
  case Nil
  then show ?case by simp
next
  case (Cons c s)
  show ?case
  proof (cases "c = CHR '' ''")
    case True
    with Cons.prems show ?thesis by (auto intro: Cons.IH)
  next
    case False
    let ?cw = "if \<not> in_word then current_word + 1 else current_word"
    from Cons.prems have "?cw < word_index \<or> (?cw = word_index \<and> True)" by auto
    from Cons.IH [OF Cons.prems(1) this] Cons.prems False show ?thesis
      by (auto simp: Let_def)
  qed
qed

lemma extract_word_later: "0 < word_index \<Longrightarrow> extract_word s word_index max_len = []"
  by (simp add: extract_word_def extract_word_loop_later)

subsection \<open>The claims on the validation\<close>

text \<open>
  C1. \<^verbatim>\<open>validate_match\<close> is symmetric: for every table and all names \<open>A\<close> and \<open>B\<close>, the call
  with \<open>A\<close> and \<open>B\<close> and the call with \<open>B\<close> and \<open>A\<close> give the same result, whatever the
  table maps (a table with an entry for Bob and none for Robert included).
\<close>

theorem validate_match_symmetric:
  "validate_match name_a name_b tt = validate_match name_b name_a tt"
proof (cases "tt_capacity tt = 0")
  case True
  let ?A = "\<forall>i\<in>set [0..<count_words name_a]. direct_match (extract_word name_a i 1024) name_b (count_words name_b)"
  let ?B = "\<forall>i\<in>set [0..<count_words name_b]. direct_match (extract_word name_b i 1024) name_a (count_words name_a)"
  show ?thesis
  proof (cases ?A; cases ?B)
    assume a: ?A and b: ?B
    show ?thesis
      by (simp add: validate_match_def Let_def count_matches_all_direct [OF a] count_matches_all_direct [OF b])
  next
    assume a: ?A and b: "\<not> ?B"
    show ?thesis
      by (simp add: validate_match_def Let_def count_matches_all_direct [OF a] count_matches_zero [OF True b]) 
  next
    assume a: "\<not> ?A" and b: ?B
    show ?thesis
      by (simp add: validate_match_def Let_def count_matches_zero [OF True a] count_matches_all_direct [OF b]) 
  next
    assume a: "\<not> ?A" and b: "\<not> ?B"
    show ?thesis
      by (simp add: validate_match_def Let_def count_matches_zero [OF True a] count_matches_zero [OF True b]) 
  qed
next
  case False
  then have pos: "0 < tt_capacity tt" by simp
  from count_matches_pos [OF pos] obtain n1 where
    n1: "count_matches tt name_a name_b (count_words name_b) [0..<count_words name_a] 0 = Some (Inr n1)" by blast
  from count_matches_pos [OF pos] obtain n2 where
    n2: "count_matches tt name_b name_a (count_words name_a) [0..<count_words name_b] 0 = Some (Inr n2)" by blast
  show ?thesis
    by (simp add: validate_match_def Let_def n1 n2)
qed


lemma bob_table_built:
  "create_tradeout_table all_allocated [(map of_char ''Bob'', [map of_char ''Robert''])] = Some (Inr bob_table)"
  by code_simp

text \<open>
  C4. A name of at least two words matches an identical copy of itself, for every table.
\<close>

theorem validate_match_identical:
  assumes "2 \<le> length (name_words name)"
  shows "validate_match name name tt = Some (Inr True)"
proof -
  have "\<forall>i\<in>set [0..<count_words name]. direct_match (extract_word name i 1024) name (count_words name)"
    by (simp add: direct_match_self)
  from count_matches_all_direct [OF this]
  have "count_matches tt name name (count_words name) [0..<count_words name] 0 = Some (Inr (int (count_words name)))"
    by simp
  with assms show ?thesis by (simp add: validate_match_def Let_def count_words_name_words)
qed


theorem validate_match_identical_witness:
  "2 \<le> length (name_words ''John Smith'') \<and>
   validate_match ''John Smith'' ''John Smith'' bob_table = Some (Inr True)"
  using validate_match_identical [of "''John Smith''" bob_table] by (simp add: name_words_def)

text \<open>
  C9. For any two names, \<^verbatim>\<open>validate_match\<close> gives what it gives on the names in which every
  word longer than 1023 bytes is replaced by its first 1023 bytes (the words of
  \<open>truncate_words name\<close> are the words of \<open>name\<close>, each cut to 1023 bytes); the result is the
  same value, so an over-long word raises nothing of its own.
\<close>

theorem validate_match_truncate:
  "validate_match name_a name_b tt = validate_match (truncate_words name_a) (truncate_words name_b) tt \<and>
   name_words (truncate_words name_a) = map (take 1023) (name_words name_a) \<and>
   name_words (truncate_words name_b) = map (take 1023) (name_words name_b)"
proof -
  have "validate_match name_a name_b tt = validate_match (truncate_words name_a) (truncate_words name_b) tt"
    unfolding validate_match_def count_words_truncate count_matches_truncate ..
  then show ?thesis by (simp add: name_words_truncate)
qed



subsection \<open>The words behind the first one\<close>

text \<open>
  \<^verbatim>\<open>extract_word\<close> copies a byte while \<^verbatim>\<open>current_word == word_index + 1\<close> and returns at
  a space when \<^verbatim>\<open>current_word == word_index\<close>, that is at the end of the word in front of the
  one asked for. For every index but 0 the output is therefore empty (lemma
  \<open>extract_word_later\<close>), every word behind the first one compares equal to every other such
  word (lemma \<open>later_words_match\<close>), and only the first words of two names are really
  compared.
\<close>

lemma later_words_match:
  assumes "0 < i" and "2 \<le> len_b"
  shows "direct_match (extract_word name_a i 1024) name_b len_b"
proof -
  from assms(1) have "extract_word name_a i 1024 = []" by (rule extract_word_later)
  moreover have "extract_word name_b 1 1024 = []" by (simp add: extract_word_later)
  moreover from assms(2) have "1 \<in> set [0..<len_b]" by simp
  ultimately show ?thesis unfolding direct_match_def list_ex_iff by metis
qed

text \<open>
  C2. The three-word rule says that a three-word name with a word that has no exact and no
  tradeout match in another name of three or more words is rejected. At the names
  \<^verbatim>\<open>Alice B Smith\<close> and \<^verbatim>\<open>Alice Smith Jones\<close>, where \<^verbatim>\<open>B\<close> is no word of the second name
  and the table has no entry for it, \<^verbatim>\<open>validate_match\<close> accepts the pair.
\<close>

theorem three_word_rule_violated:
  "name_words ''Alice B Smith'' = [''Alice'', ''B'', ''Smith''] \<and>
   name_words ''Alice Smith Jones'' = [''Alice'', ''Smith'', ''Jones''] \<and>
   ''B'' \<notin> set (name_words ''Alice Smith Jones'') \<and>
   tradeout_table_lookup bob_table ''B'' = Some (Inr None) \<and>
   validate_match ''Alice B Smith'' ''Alice Smith Jones'' bob_table = Some (Inr True)"
  by code_simp

text \<open>
  C3. The two-match floor says that a pair is rejected when fewer than two words of either
  name have a match in the other one. The four-word name \<^verbatim>\<open>John A B C\<close> and the two-word
  name \<^verbatim>\<open>John Smith\<close> share the one word \<^verbatim>\<open>John\<close>, the table has no entry for any other of
  their words, and \<^verbatim>\<open>validate_match\<close> accepts the pair.
\<close>

theorem two_match_floor_violated:
  "name_words ''John A B C'' = [''John'', ''A'', ''B'', ''C''] \<and>
   name_words ''John Smith'' = [''John'', ''Smith''] \<and>
   ''Smith'' \<notin> set (name_words ''John A B C'') \<and>
   tradeout_table_lookup bob_table ''A'' = Some (Inr None) \<and>
   tradeout_table_lookup bob_table ''B'' = Some (Inr None) \<and>
   tradeout_table_lookup bob_table ''C'' = Some (Inr None) \<and>
   tradeout_table_lookup bob_table ''Smith'' = Some (Inr None) \<and>
   validate_match ''John A B C'' ''John Smith'' bob_table = Some (Inr True)"
  by code_simp

subsection \<open>The scan\<close>

lemma count_matches_cases:
  "count_matches tt name_a name_b len_b is matches = Some (Inl ZeroDivisionError) \<or>
   (\<exists>n. count_matches tt name_a name_b len_b is matches = Some (Inr n))"
proof (cases "tt_capacity tt = 0")
  case True
  show ?thesis
  proof (cases "\<forall>i\<in>set is. direct_match (extract_word name_a i 1024) name_b len_b")
    case t: True
    from count_matches_all_direct [OF t] show ?thesis by simp
  next
    case False
    from count_matches_zero [OF True False] show ?thesis by simp
  qed
next
  case False
  then have "0 < tt_capacity tt" by simp
  from count_matches_pos [OF this] show ?thesis by simp
qed

lemma validate_match_cases:
  "validate_match name_a name_b tt = Some (Inl ZeroDivisionError) \<or>
   (\<exists>m. validate_match name_a name_b tt = Some (Inr m))"
proof (cases "count_words name_a < 2 \<or> count_words name_b < 2")
  case True
  from validate_match_short [OF this] show ?thesis by blast
next
  case False
  let ?c1 = "count_matches tt name_a name_b (count_words name_b) [0..<count_words name_a] 0"
  let ?c2 = "count_matches tt name_b name_a (count_words name_a) [0..<count_words name_b] 0"
  show ?thesis
  proof (cases "?c1 = Some (Inl ZeroDivisionError)")
    case True
    with False show ?thesis by (simp add: validate_match_def Let_def)
  next
    case c1: False
    with count_matches_cases [of tt name_a name_b "count_words name_b" "[0..<count_words name_a]" 0]
    obtain n1 where n1: "?c1 = Some (Inr n1)" by blast
    show ?thesis
    proof (cases "?c2 = Some (Inl ZeroDivisionError)")
      case True
      with False n1 show ?thesis by (simp add: validate_match_def Let_def)
    next
      case c2: False
      with count_matches_cases [of tt name_b name_a "count_words name_a" "[0..<count_words name_b]" 0]
      obtain n2 where n2: "?c2 = Some (Inr n2)" by blast
      have "validate_match name_a name_b tt = Some (Inr True) \<or>
            validate_match name_a name_b tt = Some (Inr False)"
        using False n1 n2 by (simp add: validate_match_def Let_def)
      then show ?thesis by blast
    qed
  qed
qed

lemma buf_ok_new: "buf_ok new_pair_set"
  by (simp add: buf_ok_def new_pair_set_def)

lemma buf_list_new: "buf_list new_pair_set = []"
  by (simp add: buf_list_def new_pair_set_def)

lemma store_pair_ok: "buf_ok buf \<Longrightarrow> buf_ok (store_pair buf n1 n2)"
  by (auto simp: buf_ok_def store_pair_def Let_def)

lemma store_pair_list:
  assumes "buf_ok buf"
  shows "buf_list (store_pair buf n1 n2) = buf_list buf @ [(n1, n2)]"
proof -
  let ?b = "store_pair buf n1 n2"
  have size: "nps_size ?b = nps_size buf + 1"
    by (simp add: store_pair_def Let_def)
  have len: "nps_size buf < length (pairs ?b)"
    using assms by (auto simp: buf_ok_def store_pair_def Let_def)
  have old: "pairs ?b ! i = pairs buf ! i" if "i < nps_size buf" for i
    using assms that by (auto simp: buf_ok_def store_pair_def Let_def nth_append)
  have new: "pairs ?b ! nps_size buf = \<lparr>name1 = n1, name2 = n2\<rparr>"
    using assms by (auto simp: buf_ok_def store_pair_def Let_def)
  show ?thesis
    by (simp add: buf_list_def size old new)
qed

lemma inner_loop_ok:
  "buf_ok buf \<Longrightarrow> row_ok name_ptrs tt i js \<Longrightarrow>
   \<exists>buf'. inner_loop name_ptrs tt i js buf = Some (Inr buf') \<and> buf_ok buf' \<and>
          buf_list buf' = buf_list buf @ row name_ptrs tt i js"
proof (induction js arbitrary: buf)
  case Nil
  then show ?case by (simp add: row_def)
next
  case (Cons j js)
  from Cons.prems(2) have ne: "validate_match (name_ptrs ! i) (name_ptrs ! j) tt \<noteq> Some (Inl ZeroDivisionError)"
    and rest: "row_ok name_ptrs tt i js" by (simp_all add: row_ok_def)
  with validate_match_cases [of "name_ptrs ! i" "name_ptrs ! j" tt]
  obtain m where m: "validate_match (name_ptrs ! i) (name_ptrs ! j) tt = Some (Inr m)" by auto
  show ?case
  proof (cases m)
    case True
    let ?b = "store_pair buf (name_ptrs ! i) (name_ptrs ! j)"
    from Cons.IH [OF store_pair_ok [OF Cons.prems(1)] rest, of "name_ptrs ! i" "name_ptrs ! j"]
    obtain buf' where "inner_loop name_ptrs tt i js ?b = Some (Inr buf')" "buf_ok buf'"
      "buf_list buf' = buf_list ?b @ row name_ptrs tt i js" by blast
    with m True show ?thesis
      by (simp add: store_pair_list [OF Cons.prems(1)] row_def)
  next
    case False
    from Cons.IH [OF Cons.prems(1) rest]
    obtain buf' where "inner_loop name_ptrs tt i js buf = Some (Inr buf')" "buf_ok buf'"
      "buf_list buf' = buf_list buf @ row name_ptrs tt i js" by blast
    with m False show ?thesis
      by (simp add: row_def)
  qed
qed

lemma inner_loop_error:
  "\<not> row_ok name_ptrs tt i js \<Longrightarrow> inner_loop name_ptrs tt i js buf = Some (Inl ZeroDivisionError)"
proof (induction js arbitrary: buf)
  case Nil
  then show ?case by (simp add: row_ok_def)
next
  case (Cons j js)
  show ?case
  proof (cases "validate_match (name_ptrs ! i) (name_ptrs ! j) tt = Some (Inl ZeroDivisionError)")
    case True
    then show ?thesis by simp
  next
    case False
    with validate_match_cases [of "name_ptrs ! i" "name_ptrs ! j" tt]
    obtain m where m: "validate_match (name_ptrs ! i) (name_ptrs ! j) tt = Some (Inr m)" by auto
    from Cons.prems False have "\<not> row_ok name_ptrs tt i js" by (simp add: row_ok_def)
    from Cons.IH [OF this] m show ?thesis by simp
  qed
qed

lemma thread_rows_Nil: "thread_rows name_ptrs tt n [] t = []"
  by (simp add: thread_rows_def)

lemma thread_rows_Cons:
  "thread_rows name_ptrs tt n ((tid, i) # sched) t =
   (if tid = t then row name_ptrs tt i [i + 1..<n] else []) @ thread_rows name_ptrs tt n sched t"
  by (simp add: thread_rows_def)

lemma run_schedule_ok:
  "\<forall>b\<in>set tr. buf_ok b \<Longrightarrow> \<forall>(tid, i)\<in>set sched. tid < length tr \<Longrightarrow>
   \<forall>(tid, i)\<in>set sched. row_ok name_ptrs tt i [i + 1..<n] \<Longrightarrow>
   \<exists>tr'. run_schedule name_ptrs tt n sched tr = Some (Inr tr') \<and> length tr' = length tr \<and>
         (\<forall>t<length tr. buf_list (tr' ! t) = buf_list (tr ! t) @ thread_rows name_ptrs tt n sched t)"
proof (induction sched arbitrary: tr)
  case Nil
  then show ?case by (simp add: thread_rows_Nil)
next
  case (Cons p sched)
  obtain tid i where p: "p = (tid, i)" by (cases p)
  from Cons.prems p have tid: "tid < length tr" and ok: "row_ok name_ptrs tt i [i + 1..<n]" by auto
  from Cons.prems(1) tid have bok: "buf_ok (tr ! tid)" by simp
  from inner_loop_ok [OF bok ok] obtain buf' where
    il: "inner_loop name_ptrs tt i [i + 1..<n] (tr ! tid) = Some (Inr buf')" and bok': "buf_ok buf'"
    and bl: "buf_list buf' = buf_list (tr ! tid) @ row name_ptrs tt i [i + 1..<n]" by blast
  let ?tr = "tr[tid := buf']"
  have 1: "\<forall>b\<in>set ?tr. buf_ok b"
    using Cons.prems(1) bok' by (auto dest!: set_update_subset_insert [THEN subsetD])
  have 2: "\<forall>(tid, i)\<in>set sched. tid < length ?tr" using Cons.prems(2) by auto
  have 3: "\<forall>(tid, i)\<in>set sched. row_ok name_ptrs tt i [i + 1..<n]" using Cons.prems(3) by auto
  from Cons.IH [OF 1 2 3] obtain tr' where
    rs: "run_schedule name_ptrs tt n sched ?tr = Some (Inr tr')" and len: "length tr' = length ?tr"
    and bls: "\<forall>t<length ?tr. buf_list (tr' ! t) = buf_list (?tr ! t) @ thread_rows name_ptrs tt n sched t"
    by blast
  have "buf_list (tr' ! t) = buf_list (tr ! t) @ thread_rows name_ptrs tt n (p # sched) t"
    if "t < length tr" for t
  proof (cases "t = tid")
    case True
    with bls that bl show ?thesis by (simp add: p thread_rows_Cons)
  next
    case False
    with bls that show ?thesis by (simp add: p thread_rows_Cons)
  qed
  with il rs len show ?case by (simp add: p)
qed

lemma run_schedule_error:
  "\<forall>b\<in>set tr. buf_ok b \<Longrightarrow> \<forall>(tid, i)\<in>set sched. tid < length tr \<Longrightarrow>
   \<exists>(tid, i)\<in>set sched. \<not> row_ok name_ptrs tt i [i + 1..<n] \<Longrightarrow>
   run_schedule name_ptrs tt n sched tr = Some (Inl ZeroDivisionError)"
proof (induction sched arbitrary: tr)
  case Nil
  then show ?case by simp
next
  case (Cons p sched)
  obtain tid i where p: "p = (tid, i)" by (cases p)
  show ?case
  proof (cases "row_ok name_ptrs tt i [i + 1..<n]")
    case False
    from inner_loop_error [OF False] show ?thesis by (simp add: p)
  next
    case True
    from Cons.prems p have tid: "tid < length tr" by auto
    from Cons.prems(1) tid have bok: "buf_ok (tr ! tid)" by simp
    from inner_loop_ok [OF bok True] obtain buf' where
      il: "inner_loop name_ptrs tt i [i + 1..<n] (tr ! tid) = Some (Inr buf')" and bok': "buf_ok buf'"
      by blast
    let ?tr = "tr[tid := buf']"
    have 1: "\<forall>b\<in>set ?tr. buf_ok b"
      using Cons.prems(1) bok' by (auto dest!: set_update_subset_insert [THEN subsetD])
    have 2: "\<forall>(tid, i)\<in>set sched. tid < length ?tr" using Cons.prems(2) by auto
    have 3: "\<exists>(tid, i)\<in>set sched. \<not> row_ok name_ptrs tt i [i + 1..<n]"
      using Cons.prems(3) True p by auto
    from Cons.IH [OF 1 2 3] il show ?thesis by (simp add: p)
  qed
qed

lemma set_thread_rows:
  "set (thread_rows name_ptrs tt n sched t) =
   (\<Union>(tid, i)\<in>set sched. if tid = t then set (row name_ptrs tt i [i + 1..<n]) else {})"
  by (induction sched) (auto simp: thread_rows_Nil thread_rows_Cons split: if_splits)

lemma collect_results_buf_list:
  "collect_results tr k = concat (map (\<lambda>t. buf_list (tr ! t)) [0..<k])"
  by (simp add: collect_results_def buf_list_def)

lemma valid_schedule_tids: "valid_schedule k n sched \<Longrightarrow> \<forall>(tid, i)\<in>set sched. tid < k"
  by (auto simp: valid_schedule_def list_all_iff)

lemma valid_schedule_indices: 
  assumes "valid_schedule k n sched" shows "snd ` set sched = {0..<n}"
proof -
  from assms have "sort (map snd sched) = [0..<n]" by (simp add: valid_schedule_def)
  then have "set (sort (map snd sched)) = set [0..<n]" by simp
  then show ?thesis by simp
qed

lemma run_schedule_set:
  assumes "valid_schedule k n sched"
  shows "map_option (map_sum id (\<lambda>tr. set (collect_results tr k)))
           (run_schedule name_ptrs tt n sched (replicate k new_pair_set))
         = Some (scan_set name_ptrs tt n)"
proof -
  let ?tr = "replicate k new_pair_set"
  have 1: "\<forall>b\<in>set ?tr. buf_ok b" by (simp add: buf_ok_new)
  have 2: "\<forall>(tid, i)\<in>set sched. tid < length ?tr"
    using valid_schedule_tids [OF assms] by simp
  note idx = valid_schedule_indices [OF assms]
  show ?thesis
  proof (cases "\<forall>i<n. row_ok name_ptrs tt i [i + 1..<n]")
    case True
    have 3: "\<forall>(tid, i)\<in>set sched. row_ok name_ptrs tt i [i + 1..<n]"
    proof (clarify)
      fix tid i assume "(tid, i) \<in> set sched"
      then have "i \<in> snd ` set sched" by force
      with idx True show "row_ok name_ptrs tt i [i + 1..<n]" by simp
    qed
    from run_schedule_ok [OF 1 2 3] obtain tr' where
      rs: "run_schedule name_ptrs tt n sched ?tr = Some (Inr tr')" and
      bls: "\<forall>t<k. buf_list (tr' ! t) = thread_rows name_ptrs tt n sched t"
      by (auto simp: buf_list_new)
    have "set (collect_results tr' k) = (\<Union>t<k. set (thread_rows name_ptrs tt n sched t))"
      using bls by (auto simp: collect_results_buf_list)
    also have "\<dots> = (\<Union>(tid, i)\<in>set sched. set (row name_ptrs tt i [i + 1..<n]))"
      using valid_schedule_tids [OF assms] by (fastforce simp: set_thread_rows split: if_splits)
    also have "\<dots> = (\<Union>i\<in>snd ` set sched. set (row name_ptrs tt i [i + 1..<n]))"
      by force
    also have "\<dots> = (\<Union>i<n. set (row name_ptrs tt i [i + 1..<n]))"
      unfolding idx by (simp add: atLeast0LessThan)
    finally show ?thesis using True rs by (simp add: scan_set_def)
  next
    case False
    then obtain i where "i < n" "\<not> row_ok name_ptrs tt i [i + 1..<n]" by blast
    with idx have "\<exists>(tid, i)\<in>set sched. \<not> row_ok name_ptrs tt i [i + 1..<n]" by force
    from run_schedule_error [OF 1 2 this] False show ?thesis by (simp add: scan_set_def)
  qed
qed

lemma parallel_find_matches_set:
  assumes "0 \<le> resolve_threads num_threads cpu_count"
    and "valid_schedule (nat (resolve_threads num_threads cpu_count)) (length (valid_names all_names)) sched"
  shows "result_set (parallel_find_matches malloc_ok all_names word_to_matches num_threads cpu_count sched) =
    (case create_tradeout_table malloc_ok word_to_matches of
       None \<Rightarrow> None
     | Some (Inl e) \<Rightarrow> Some (Inl e)
     | Some (Inr tt) \<Rightarrow>
        (case encode_names (valid_names all_names) of
           Inl e \<Rightarrow> Some (Inl e)
         | Inr bytes_list \<Rightarrow>
             Some (scan_set (map c_str bytes_list) tt (length (valid_names all_names)))))"
proof (cases "create_tradeout_table malloc_ok word_to_matches")
  case None
  then show ?thesis by (simp add: parallel_find_matches_def result_set_def)
next
  case (Some r)
  show ?thesis
  proof (cases r)
    case (Inl e)
    with Some show ?thesis by (simp add: parallel_find_matches_def result_set_def)
  next
    case (Inr tt)
    show ?thesis
    proof (cases "encode_names (valid_names all_names)")
      case (Inl e)
      with Some Inr show ?thesis by (simp add: parallel_find_matches_def result_set_def)
    next
      case bl: (Inr bytes_list)
      let ?k = "nat (resolve_threads num_threads cpu_count)"
      let ?n = "length (valid_names all_names)"
      let ?run = "run_schedule (map c_str bytes_list) tt ?n sched (replicate ?k new_pair_set)"
      have "result_set (parallel_find_matches malloc_ok all_names word_to_matches num_threads cpu_count sched)
            = map_option (map_sum id (\<lambda>tr. set (collect_results tr ?k))) ?run"
        using Some Inr bl assms(1)
        by (cases ?run rule: option.exhaust; cases "the ?run")
           (simp_all add: parallel_find_matches_def result_set_def Let_def)
      also have "\<dots> = Some (scan_set (map c_str bytes_list) tt ?n)"
        by (rule run_schedule_set [OF assms(2)])
      finally show ?thesis using Some Inr bl by simp
    qed
  qed
qed

lemma ex_runs:
  "parallel_find_matches all_allocated ex_names ex_dict 1 8 [(0, 0), (0, 1), (0, 2)] = 
     Some (Inr [(''John Smith'', ''Bob Smith''), (''John Smith'', ''Bob A Smith''), (''Bob Smith'', ''Bob A Smith'')])"
  "parallel_find_matches all_allocated ex_names ex_dict 0 2 [(1, 2), (0, 1), (1, 0)] = 
     Some (Inr [(''Bob Smith'', ''Bob A Smith''), (''John Smith'', ''Bob Smith''), (''John Smith'', ''Bob A Smith'')])"
  by code_simp+

lemma row_words:
  assumes "(x, y) \<in> set (row name_ptrs tt i js)"
  shows "2 \<le> length (name_words x) \<and> 2 \<le> length (name_words y)"
proof -
  from assms obtain j where xy: "x = name_ptrs ! i" "y = name_ptrs ! j"
    and m: "validate_match (name_ptrs ! i) (name_ptrs ! j) tt = Some (Inr True)"
    by (auto simp: row_def)
  have "\<not> (count_words x < 2 \<or> count_words y < 2)"
  proof
    assume "count_words x < 2 \<or> count_words y < 2"
    from validate_match_short [OF this, of tt] m xy show False by simp
  qed
  then show ?thesis by (simp add: count_words_name_words)
qed

lemma reported_names_words:
  assumes "1 \<le> resolve_threads num_threads cpu_count"
    and "valid_schedule (nat (resolve_threads num_threads cpu_count)) (length (valid_names all_names)) sched"
    and "parallel_find_matches malloc_ok all_names word_to_matches num_threads cpu_count sched = Some (Inr res)"
    and "(x, y) \<in> set res"
  shows "2 \<le> length (name_words x) \<and> 2 \<le> length (name_words y)"
proof -
  from assms(1) have 0: "0 \<le> resolve_threads num_threads cpu_count" by simp
  from assms(3) have "result_set (parallel_find_matches malloc_ok all_names word_to_matches num_threads cpu_count sched)
     = Some (Inr (set res))" by (simp add: result_set_def)
  with parallel_find_matches_set [OF 0 assms(2), of malloc_ok word_to_matches]
  obtain tt bytes_list where
    "scan_set (map c_str bytes_list) tt (length (valid_names all_names)) = Inr (set res)"
    by (auto split: option.splits sum.splits)
  then have "set res = (\<Union>i<length (valid_names all_names).
      set (row (map c_str bytes_list) tt i [i + 1..<length (valid_names all_names)]))"
    by (simp add: scan_set_def split: if_splits)
  with assms(4) obtain i where
    "(x, y) \<in> set (row (map c_str bytes_list) tt i [i + 1..<length (valid_names all_names)])"
    by auto
  then show ?thesis by (rule row_words)
qed

subsection \<open>The claims on the scan\<close>

text \<open>
  C10. For a fixed list of names and a fixed dictionary, two runs of
  \<^verbatim>\<open>parallel_find_matches\<close>, with the same or different numbers of worker threads and
  under any two schedules of the outer loop, give the same set of pairs (or raise the same
  exception); only the order of the returned list depends on the run.
\<close>

theorem result_set_deterministic:
  assumes "1 \<le> resolve_threads num_threads1 cpu_count1"
    and "1 \<le> resolve_threads num_threads2 cpu_count2"
    and "valid_schedule (nat (resolve_threads num_threads1 cpu_count1)) (length (valid_names all_names)) sched1"
    and "valid_schedule (nat (resolve_threads num_threads2 cpu_count2)) (length (valid_names all_names)) sched2"
  shows "result_set (parallel_find_matches malloc_ok all_names word_to_matches num_threads1 cpu_count1 sched1)
       = result_set (parallel_find_matches malloc_ok all_names word_to_matches num_threads2 cpu_count2 sched2)"
proof -
  from assms(1) have 1: "0 \<le> resolve_threads num_threads1 cpu_count1" by simp
  from assms(2) have 2: "0 \<le> resolve_threads num_threads2 cpu_count2" by simp
  show ?thesis
    by (simp only: parallel_find_matches_set [OF 1 assms(3)] parallel_find_matches_set [OF 2 assms(4)])
qed

theorem result_set_deterministic_witness:
  "1 \<le> resolve_threads 1 8 \<and> 1 \<le> resolve_threads 0 2 \<and>
   valid_schedule (nat (resolve_threads 1 8)) (length (valid_names ex_names)) [(0, 0), (0, 1), (0, 2)] \<and>
   valid_schedule (nat (resolve_threads 0 2)) (length (valid_names ex_names)) [(1, 2), (0, 1), (1, 0)] \<and>
   result_set (parallel_find_matches all_allocated ex_names ex_dict 1 8 [(0, 0), (0, 1), (0, 2)])
   = result_set (parallel_find_matches all_allocated ex_names ex_dict 0 2 [(1, 2), (0, 1), (1, 0)])"
proof -
  have 1: "1 \<le> resolve_threads 1 8" by (simp add: resolve_threads_def)
  have 2: "1 \<le> resolve_threads 0 2" by (simp add: resolve_threads_def)
  have 3: "valid_schedule (nat (resolve_threads 1 8)) (length (valid_names ex_names)) [(0, 0), (0, 1), (0, 2)]"
    by code_simp
  have 4: "valid_schedule (nat (resolve_threads 0 2)) (length (valid_names ex_names)) [(1, 2), (0, 1), (1, 0)]"
    by code_simp
  from result_set_deterministic [OF 1 2 3 4] 1 2 3 4 show ?thesis by blast
qed

text \<open>
  C5. The claim says that no reported pair has two equal names and that no pair of names is
  reported twice, also for a list that holds a name more than once; the docstring of
  \<^verbatim>\<open>parallel_find_matches\<close> promises pairs with \<^verbatim>\<open>name1 < name2\<close>. The scan pairs list
  positions: a name that occurs twice is reported with itself, and one that occurs three
  times is reported with itself three times.
\<close>

theorem duplicate_names_reported:
  "parallel_find_matches all_allocated [map of_char ''John Smith'', map of_char ''John Smith'']
     [(map of_char ''Bob'', [map of_char ''Robert''])] 1 8 [(0, 0), (0, 1)]
     = Some (Inr [(''John Smith'', ''John Smith'')]) \<and>
   parallel_find_matches all_allocated [map of_char ''John Smith'', map of_char ''John Smith'', map of_char ''John Smith'']
     [(map of_char ''Bob'', [map of_char ''Robert''])] 1 8 [(0, 0), (0, 1), (0, 2)]
     = Some (Inr [(''John Smith'', ''John Smith''), (''John Smith'', ''John Smith''),
                  (''John Smith'', ''John Smith'')])"
  by code_simp

text \<open>
  C6, as the claim states it, fails: the name \<^verbatim>\<open>a<TAB>b\<close> is a single run of bytes other
  than the space, and the filter, which splits at white space, keeps it in the scan domain.
\<close>

theorem tab_name_in_scan_domain:
  "encode_utf8 [97, 9, 98] = Inr [CHR ''a'', CHR 0x09, CHR ''b''] \<and>
   name_words (c_str [CHR ''a'', CHR 0x09, CHR ''b'']) = [[CHR ''a'', CHR 0x09, CHR ''b'']] \<and>
   length (name_words (c_str [CHR ''a'', CHR 0x09, CHR ''b''])) < 2 \<and>
   [97, 9, 98] \<in> set (valid_names [[97, 9, 98]])"
  by code_simp

text \<open>
  C6, amended. A name that \<^verbatim>\<open>str.split()\<close> cuts into fewer than two words is not in the scan
  domain; every name of a reported pair has at least two words (runs of bytes other than
  the space), so a name with fewer is in no reported pair; and \<^verbatim>\<open>validate_match\<close> returns
  false when either argument has fewer than two words.
\<close>

theorem two_word_minimum:
  "(length (py_split n) < 2 \<longrightarrow> n \<notin> set (valid_names all_names)) \<and>
   (1 \<le> resolve_threads num_threads cpu_count \<and>
    valid_schedule (nat (resolve_threads num_threads cpu_count)) (length (valid_names all_names)) sched \<and>
    parallel_find_matches malloc_ok all_names word_to_matches num_threads cpu_count sched = Some (Inr res) \<and>
    (x, y) \<in> set res \<longrightarrow> 2 \<le> length (name_words x) \<and> 2 \<le> length (name_words y)) \<and>
   (length (name_words name_a) < 2 \<or> length (name_words name_b) < 2 \<longrightarrow>
    validate_match name_a name_b tt = Some (Inr False))"
proof (intro conjI impI)
  assume "length (py_split n) < 2"
  then show "n \<notin> set (valid_names all_names)" by (simp add: valid_names_def)
next
  assume a: "1 \<le> resolve_threads num_threads cpu_count \<and>
    valid_schedule (nat (resolve_threads num_threads cpu_count)) (length (valid_names all_names)) sched \<and>
    parallel_find_matches malloc_ok all_names word_to_matches num_threads cpu_count sched = Some (Inr res) \<and>
    (x, y) \<in> set res"
  with reported_names_words [of num_threads cpu_count all_names sched malloc_ok word_to_matches res x y]
  show "2 \<le> length (name_words x)" "2 \<le> length (name_words y)" by simp_all
next
  assume "length (name_words name_a) < 2 \<or> length (name_words name_b) < 2"
  then show "validate_match name_a name_b tt = Some (Inr False)"
    by (intro validate_match_short) (simp add: count_words_name_words)
qed

theorem two_word_minimum_witness:
  "length (py_split (map of_char ''Madonna'')) < 2 \<and>
   map of_char ''Madonna'' \<notin> set (valid_names ex_names) \<and>
   1 \<le> resolve_threads 1 8 \<and>
   valid_schedule (nat (resolve_threads 1 8)) (length (valid_names ex_names)) [(0, 0), (0, 1), (0, 2)] \<and>
   parallel_find_matches all_allocated ex_names ex_dict 1 8 [(0, 0), (0, 1), (0, 2)] =
     Some (Inr [(''John Smith'', ''Bob Smith''), (''John Smith'', ''Bob A Smith''),
                (''Bob Smith'', ''Bob A Smith'')]) \<and>
   (''John Smith'', ''Bob A Smith'') \<in> set [(''John Smith'', ''Bob Smith''), (''John Smith'', ''Bob A Smith''),
                (''Bob Smith'', ''Bob A Smith'')] \<and>
   2 \<le> length (name_words ''John Smith'') \<and> 2 \<le> length (name_words ''Bob A Smith'') \<and>
   length (name_words ''Madonna'') < 2 \<and>
   validate_match ''Madonna'' ''John Smith'' bob_table = Some (Inr False)"
proof -
  have 1: "length (py_split (map of_char ''Madonna'')) < 2" by code_simp
  have 2: "1 \<le> resolve_threads 1 8" by (simp add: resolve_threads_def)
  have 3: "valid_schedule (nat (resolve_threads 1 8)) (length (valid_names ex_names)) [(0, 0), (0, 1), (0, 2)]"
    by code_simp
  have 4: "parallel_find_matches all_allocated ex_names ex_dict 1 8 [(0, 0), (0, 1), (0, 2)] =
     Some (Inr [(''John Smith'', ''Bob Smith''), (''John Smith'', ''Bob A Smith''),
                (''Bob Smith'', ''Bob A Smith'')])" by code_simp
  have 5: "(''John Smith'', ''Bob A Smith'') \<in> set [(''John Smith'', ''Bob Smith''), (''John Smith'', ''Bob A Smith''),
                (''Bob Smith'', ''Bob A Smith'')]" by simp
  have 6: "length (name_words ''Madonna'') < 2" by code_simp
  from two_word_minimum [of "map of_char ''Madonna''" ex_names 1 8 "[(0, 0), (0, 1), (0, 2)]"
      all_allocated ex_dict
      "[(''John Smith'', ''Bob Smith''), (''John Smith'', ''Bob A Smith''), (''Bob Smith'', ''Bob A Smith'')]"
      "''John Smith''" "''Bob A Smith''" "''Madonna''" "''John Smith''" bob_table]
    1 2 3 4 5 6
  show ?thesis by blast
qed

subsection \<open>The table under construction\<close>

lemma find_slot_steps:
  "index < cap \<Longrightarrow> word (es ! ((index + d) mod cap)) = None \<Longrightarrow>
   (\<forall>d'<d. word (es ! ((index + d') mod cap)) \<noteq> None) \<Longrightarrow>
   find_slot es cap index = Some ((index + d) mod cap)"
proof (induction d arbitrary: index)
  case 0
  then show ?case by (subst find_slot.simps) simp
next
  case (Suc d)
  let ?next = "(index + 1) mod cap"
  from Suc.prems(3) have "word (es ! ((index + 0) mod cap)) \<noteq> None" by blast
  with Suc.prems(1) have occ: "word (es ! index) \<noteq> None" by simp
  have eq: "(?next + e) mod cap = (index + Suc e) mod cap" for e
    by (simp add: mod_add_left_eq)
  have "find_slot es cap ?next = Some ((?next + d) mod cap)"
  proof (rule Suc.IH)
    show "?next < cap" using Suc.prems(1) by simp
    show "word (es ! ((?next + d) mod cap)) = None" using Suc.prems(2) unfolding eq .
    show "\<forall>d'<d. word (es ! ((?next + d') mod cap)) \<noteq> None"
    proof (intro allI impI)
      fix d' assume "d' < d"
      then have "Suc d' < Suc d" by simp
      with Suc.prems(3) have "word (es ! ((index + Suc d') mod cap)) \<noteq> None" by blast
      then show "word (es ! ((?next + d') mod cap)) \<noteq> None" unfolding eq .
    qed
  qed
  then have "find_slot es cap ?next = Some ((index + Suc d) mod cap)" unfolding eq .
  with occ show ?case by (subst find_slot.simps) auto
qed

lemma reach_slot:
  assumes "index < cap" "p < (cap::nat)"
  shows "\<exists>d<cap. (index + d) mod cap = p"
proof (cases "index \<le> p")
  case True
  with assms have "(index + (p - index)) mod cap = p" "p - index < cap" by simp_all
  then show ?thesis by blast
next
  case False
  with assms have "(index + (p + cap - index)) mod cap = p" "p + cap - index < cap" by simp_all
  then show ?thesis by blast
qed

lemma find_slot_returns:
  assumes "index < cap" "p < cap" "word (es ! p) = None"
  shows "\<exists>d<cap. find_slot es cap index = Some ((index + d) mod cap) \<and>
           word (es ! ((index + d) mod cap)) = None \<and>
           (\<forall>d'<d. word (es ! ((index + d') mod cap)) \<noteq> None)"
proof -
  let ?P = "\<lambda>d. word (es ! ((index + d) mod cap)) = None"
  from reach_slot [OF assms(1,2)] obtain d0 where d0: "d0 < cap" "(index + d0) mod cap = p" by blast
  with assms(3) have "?P d0" by simp
  define d where "d = (LEAST d. ?P d)"
  have Pd: "?P d" unfolding d_def using \<open>?P d0\<close> by (rule LeastI)
  have le: "d \<le> d0" unfolding d_def using \<open>?P d0\<close> by (rule Least_le)
  have min: "\<forall>d'<d. \<not> ?P d'" unfolding d_def using not_less_Least by blast
  have "d < cap" using le d0(1) by simp
  with find_slot_steps [OF assms(1) Pd min] Pd min show ?thesis by blast
qed


lemma ss_list_store:
  assumes "ss_size ts < length (strings ts)"
  shows "ss_list (ts\<lparr>strings := (strings ts)[ss_size ts := s], ss_size := ss_size ts + 1\<rparr>) = ss_list ts @ [s]"
  using assms by (simp add: ss_list_def take_Suc_conv_app_nth)

lemma add_matches_result:
  "ss_size ts + length ms \<le> length (strings ts) \<Longrightarrow> ss_capacity ts = length (strings ts) \<Longrightarrow>
   add_matches ok j ms ts = Inr ts' \<Longrightarrow>
   ss_list ts' = ss_list ts @ map cstr_of (kept_matches ok j ms) \<and>
   ss_size ts' \<le> length (strings ts') \<and>
   (\<forall>x\<in>set ms. \<exists>b. encode_utf8 x = Inr b)"
proof (induction ms arbitrary: ts j)
  case Nil
  then show ?case by simp
next
  case (Cons x ms)
  from Cons.prems(3) obtain b where b: "encode_utf8 x = Inr b"
    by (cases "encode_utf8 x") simp_all
  from Cons.prems(1,2) have lt: "ss_size ts < length (strings ts)" "\<not> ss_capacity ts \<le> ss_size ts"
    by simp_all
  show ?case
  proof (cases "ok j")
    case True
    let ?ts = "ts\<lparr>strings := (strings ts)[ss_size ts := c_str b], ss_size := ss_size ts + 1\<rparr>"
    from Cons.prems(3) b lt True have am: "add_matches ok (j + 1) ms ?ts = Inr ts'" by simp
    have "ss_list ts' = ss_list ?ts @ map cstr_of (kept_matches ok (j + 1) ms) \<and>
      ss_size ts' \<le> length (strings ts') \<and> (\<forall>x\<in>set ms. \<exists>b. encode_utf8 x = Inr b)"
      using Cons.prems(1,2) am by (intro Cons.IH) simp_all
    with ss_list_store [OF lt(1), of "c_str b"] b True show ?thesis by (simp add: cstr_of_def)
  next
    case False
    with Cons.prems(3) b lt have am: "add_matches ok (j + 1) ms ts = Inr ts'" by simp
    have "ss_list ts' = ss_list ts @ map cstr_of (kept_matches ok (j + 1) ms) \<and>
      ss_size ts' \<le> length (strings ts') \<and> (\<forall>x\<in>set ms. \<exists>b. encode_utf8 x = Inr b)"
      using Cons.prems(1,2) am by (intro Cons.IH) simp_all
    with b False show ?thesis by simp
  qed
qed

lemma insert_word_cases:
  assumes len: "length (entries tt) = tt_capacity tt"
    and free: "p < tt_capacity tt" "word (entries tt ! p) = None"
  shows "(\<exists>e. insert_word ok tt (k, ms) = Some (Inl e)) \<or>
    (\<exists>d ts. d < tt_capacity tt \<and>
       word (entries tt ! ((home (tt_capacity tt) (cstr_of k) + d) mod tt_capacity tt)) = None \<and>
       (\<forall>d'<d. word (entries tt ! ((home (tt_capacity tt) (cstr_of k) + d') mod tt_capacity tt)) \<noteq> None) \<and>
       insert_word ok tt (k, ms) =
         Some (Inr (tt\<lparr>entries := (entries tt)[(home (tt_capacity tt) (cstr_of k) + d) mod tt_capacity tt :=
                       \<lparr>word = Some (cstr_of k), tradeouts = Some ts\<rparr>]\<rparr>)) \<and>
       ss_list ts = (if utf8_length k = 1 then [cstr_of k] else []) @ map cstr_of (kept_matches ok 0 ms) \<and>
       ss_size ts \<le> length (strings ts) \<and>
       (\<exists>b. encode_utf8 k = Inr b) \<and> (\<forall>x\<in>set ms. \<exists>b. encode_utf8 x = Inr b))"
proof (cases "encode_utf8 k")
  case (Inl e)
  then show ?thesis by (simp add: insert_word_def)
next
  case (Inr kb)
  let ?cap = "tt_capacity tt"
  let ?h = "home ?cap (c_str kb)"
  from free(1) have pos: "0 < ?cap" by simp
  then have h: "?h < ?cap" unfolding home_def by (rule probe_start_less)
  from find_slot_returns [OF h free] obtain d where d: "d < ?cap"
    and fs: "find_slot (entries tt) ?cap ?h = Some ((?h + d) mod ?cap)"
    and fr: "word (entries tt ! ((?h + d) mod ?cap)) = None"
    and occ: "\<forall>d'<d. word (entries tt ! ((?h + d') mod ?cap)) \<noteq> None" by blast
  let ?ts0 = "create_string_set (length ms + 1)"
  let ?ts1 = "if length kb = 1
      then ?ts0\<lparr>strings := (strings ?ts0)[ss_size ?ts0 := c_str kb], ss_size := ss_size ?ts0 + 1\<rparr>
      else ?ts0"
  have iw: "insert_word ok tt (k, ms) =
      (case add_matches ok 0 ms ?ts1 of
         Inl e \<Rightarrow> Some (Inl e)
       | Inr ts \<Rightarrow> Some (Inr (tt\<lparr>entries := (entries tt)[(?h + d) mod ?cap :=
                       \<lparr>word = Some (c_str kb), tradeouts = Some ts\<rparr>]\<rparr>)))"
    using Inr pos fs by (simp add: insert_word_def Let_def home_def cong: sum.case_cong)
  show ?thesis
  proof (cases "add_matches ok 0 ms ?ts1")
    case (Inl e)
    with iw show ?thesis by simp
  next
    case am: (Inr ts)
    have l1: "ss_list ?ts1 = (if length kb = 1 then [c_str kb] else [])"
      by (simp add: ss_list_def create_string_set_def)
    have "ss_list ts = ss_list ?ts1 @ map cstr_of (kept_matches ok 0 ms) \<and> ss_size ts \<le> length (strings ts) \<and>
          (\<forall>x\<in>set ms. \<exists>b. encode_utf8 x = Inr b)"
      by (rule add_matches_result [OF _ _ am]) (simp_all add: create_string_set_def)
    then have res: "ss_list ts = (if length kb = 1 then [c_str kb] else []) @ map cstr_of (kept_matches ok 0 ms)"
      "ss_size ts \<le> length (strings ts)" "\<forall>x\<in>set ms. \<exists>b. encode_utf8 x = Inr b"
      unfolding l1 by blast+
    have ck: "cstr_of k = c_str kb" "utf8_length k = length kb"
      using Inr by (simp_all add: cstr_of_def utf8_length_def)
    have "d < tt_capacity tt \<and>
       word (entries tt ! ((home (tt_capacity tt) (cstr_of k) + d) mod tt_capacity tt)) = None \<and>
       (\<forall>d'<d. word (entries tt ! ((home (tt_capacity tt) (cstr_of k) + d') mod tt_capacity tt)) \<noteq> None) \<and>
       insert_word ok tt (k, ms) =
         Some (Inr (tt\<lparr>entries := (entries tt)[(home (tt_capacity tt) (cstr_of k) + d) mod tt_capacity tt :=
                       \<lparr>word = Some (cstr_of k), tradeouts = Some ts\<rparr>]\<rparr>)) \<and>
       ss_list ts = (if utf8_length k = 1 then [cstr_of k] else []) @ map cstr_of (kept_matches ok 0 ms) \<and>
       ss_size ts \<le> length (strings ts) \<and>
       (\<exists>b. encode_utf8 k = Inr b) \<and> (\<forall>x\<in>set ms. \<exists>b. encode_utf8 x = Inr b)"
      unfolding ck using d fr occ iw am res Inr by simp
    then show ?thesis by blast
  qed
qed

lemma free_slot_exists:
  assumes "card (occupied tt) < tt_capacity tt"
  shows "\<exists>p<tt_capacity tt. word (entries tt ! p) = None"
proof (rule ccontr)
  assume "\<not> ?thesis"
  then have "occupied tt = {..<tt_capacity tt}" by (auto simp: occupied_def)
  with assms show False by simp
qed

lemma finite_occupied: "finite (occupied tt)"
  by (simp add: occupied_def)

lemma store_entry_step:
  fixes tt :: TradeoutTable and i :: nat and ck :: string and ts :: StringSet
  defines "tt' \<equiv> tt\<lparr>entries := (entries tt)[i := \<lparr>word = Some ck, tradeouts = Some ts\<rparr>]\<rparr>"
  assumes ok: "table_ok tt" and i: "i < tt_capacity tt" and free: "word (entries tt ! i) = None"
    and path: "probe_path tt ck i"
  shows "table_ok tt'" and "tt_capacity tt' = tt_capacity tt"
    and "card (occupied tt') = card (occupied tt) + 1"
    and "slot_keys tt' = insert ck (slot_keys tt)"
    and "entries tt' ! i = \<lparr>word = Some ck, tradeouts = Some ts\<rparr>"
    and "\<And>ok0 k ms. holds tt ok0 k ms \<Longrightarrow> holds tt' ok0 k ms"
    and "unique_slots tt \<Longrightarrow> ck \<notin> slot_keys tt \<Longrightarrow> unique_slots tt'"
proof -
  let ?cap = "tt_capacity tt"
  from ok have len: "length (entries tt) = ?cap" by (simp add: table_ok_def)
  show cap: "tt_capacity tt' = ?cap" by (simp add: tt'_def)
  have nth: "entries tt' ! q = (if q = i then \<lparr>word = Some ck, tradeouts = Some ts\<rparr> else entries tt ! q)"
    if "q < ?cap" for q
    using that len i by (simp add: tt'_def nth_list_update)
  from nth [OF i] show "entries tt' ! i = \<lparr>word = Some ck, tradeouts = Some ts\<rparr>" by simp
  have keep: "word (entries tt' ! q) \<noteq> None" if "q < ?cap" "word (entries tt ! q) \<noteq> None" for q
    using that nth by simp
  have pp: "probe_path tt' k p" if "probe_path tt k p" for k p
  proof -
    from that obtain d where d: "d < ?cap" "p = (home ?cap k + d) mod ?cap"
      "\<forall>d'<d. word (entries tt ! ((home ?cap k + d') mod ?cap)) \<noteq> None"
      by (auto simp: probe_path_def)
    have "\<forall>d'<d. word (entries tt' ! ((home ?cap k + d') mod ?cap)) \<noteq> None"
    proof (intro allI impI)
      fix d' assume "d' < d"
      with d(3) have "word (entries tt ! ((home ?cap k + d') mod ?cap)) \<noteq> None" by blast
      moreover have "(home ?cap k + d') mod ?cap < ?cap" using i by simp
      ultimately show "word (entries tt' ! ((home ?cap k + d') mod ?cap)) \<noteq> None" by (rule keep [rotated])
    qed
    with d(1,2) show ?thesis unfolding probe_path_def cap by blast
  qed
  show "table_ok tt'"
    unfolding table_ok_def cap
  proof (intro conjI allI impI)
    show "length (entries tt') = ?cap" using len by (simp add: tt'_def)
  next
    fix p k assume p: "p < ?cap" and w: "word (entries tt' ! p) = Some k"
    show "probe_path tt' k p"
    proof (cases "p = i")
      case True
      with w nth [OF p] have "k = ck" by simp
      with True path show ?thesis by (simp add: pp)
    next
      case False
      with w nth [OF p] have "word (entries tt ! p) = Some k" by simp
      with ok p have "probe_path tt k p" by (simp add: table_ok_def)
      then show ?thesis by (rule pp)
    qed
  qed
  have occ: "occupied tt' = insert i (occupied tt)"
    using i nth by (auto simp: occupied_def cap)
  have "i \<notin> occupied tt" using free by (simp add: occupied_def)
  with occ show "card (occupied tt') = card (occupied tt) + 1"
    by (simp add: finite_occupied)
  show "slot_keys tt' = insert ck (slot_keys tt)"
  proof (intro set_eqI iffI)
    fix k assume "k \<in> slot_keys tt'"
    then obtain p where p: "p < ?cap" "word (entries tt' ! p) = Some k" by (auto simp: slot_keys_def cap)
    with nth [OF p(1)] show "k \<in> insert ck (slot_keys tt)"
      by (cases "p = i") (auto simp: slot_keys_def)
  next
    fix k assume "k \<in> insert ck (slot_keys tt)"
    then consider "k = ck" | "k \<in> slot_keys tt" by blast
    then show "k \<in> slot_keys tt'"
    proof cases
      case 1
      with nth [OF i] i show ?thesis by (auto simp: slot_keys_def cap)
    next
      case 2
      then obtain p where p: "p < ?cap" "word (entries tt ! p) = Some k" by (auto simp: slot_keys_def)
      with free have "p \<noteq> i" by auto
      with nth [OF p(1)] p show ?thesis by (auto simp: slot_keys_def cap)
    qed
  qed
  show "holds tt' ok k ms" if "holds tt ok k ms" for ok k ms
  proof -
    from that obtain p ts0 where p: "p < ?cap"
      and e: "entries tt ! p = \<lparr>word = Some (cstr_of k), tradeouts = Some ts0\<rparr>"
      and rest: "ss_size ts0 \<le> length (strings ts0)"
        "ss_list ts0 = (if utf8_length k = 1 then [cstr_of k] else []) @ map cstr_of (kept_matches ok 0 ms)"
        "\<exists>b. encode_utf8 k = Inr b" "\<forall>x\<in>set ms. \<exists>b. encode_utf8 x = Inr b"
      unfolding holds_def by blast
    from e free have "p \<noteq> i" by auto
    with nth [OF p] e have "entries tt' ! p = \<lparr>word = Some (cstr_of k), tradeouts = Some ts0\<rparr>" by simp
    with p rest show ?thesis unfolding holds_def cap by blast
  qed
  show "unique_slots tt'" if u: "unique_slots tt" and new: "ck \<notin> slot_keys tt"
    unfolding unique_slots_def cap
  proof (intro allI impI)
    fix p q assume p: "p < ?cap" and q: "q < ?cap"
      and ne: "word (entries tt' ! p) \<noteq> None"
      and eq: "word (entries tt' ! p) = word (entries tt' ! q)"
    have other: "word (entries tt ! r) \<noteq> Some ck" if "r < ?cap" for r
      using new that by (auto simp: slot_keys_def)
    show "p = q"
    proof (cases "p = i"; cases "q = i")
      assume "p = i" "q = i" then show ?thesis by simp
    next
      assume "p = i" "q \<noteq> i"
      with eq nth [OF p] nth [OF q] other [OF q] show ?thesis by simp
    next
      assume "p \<noteq> i" "q = i"
      with eq nth [OF p] nth [OF q] other [OF p] show ?thesis by simp
    next
      assume "p \<noteq> i" "q \<noteq> i"
      with eq ne nth [OF p] nth [OF q] u p q show ?thesis by (simp add: unique_slots_def)
    qed
  qed
qed

lemma insert_word_step:
  assumes ok: "table_ok tt" and room: "card (occupied tt) < tt_capacity tt"
  shows "(\<exists>e. insert_word ok tt (k, ms) = Some (Inl e)) \<or>
    (\<exists>tt'. insert_word ok tt (k, ms) = Some (Inr tt') \<and> table_ok tt' \<and>
       tt_capacity tt' = tt_capacity tt \<and> card (occupied tt') = card (occupied tt) + 1 \<and>
       slot_keys tt' = insert (cstr_of k) (slot_keys tt) \<and> holds tt' ok k ms \<and>
       (\<forall>ok0 k0 ms0. holds tt ok0 k0 ms0 \<longrightarrow> holds tt' ok0 k0 ms0) \<and>
       (unique_slots tt \<and> cstr_of k \<notin> slot_keys tt \<longrightarrow> unique_slots tt'))"
proof -
  let ?cap = "tt_capacity tt"
  from ok have len: "length (entries tt) = ?cap" by (simp add: table_ok_def)
  from free_slot_exists [OF room] obtain p where p: "p < ?cap" "word (entries tt ! p) = None" by blast
  from insert_word_cases [OF len p, of ok k ms] show ?thesis
  proof
    assume "\<exists>e. insert_word ok tt (k, ms) = Some (Inl e)"
    then show ?thesis ..
  next
    assume "\<exists>d ts. d < ?cap \<and>
       word (entries tt ! ((home ?cap (cstr_of k) + d) mod ?cap)) = None \<and>
       (\<forall>d'<d. word (entries tt ! ((home ?cap (cstr_of k) + d') mod ?cap)) \<noteq> None) \<and>
       insert_word ok tt (k, ms) =
         Some (Inr (tt\<lparr>entries := (entries tt)[(home ?cap (cstr_of k) + d) mod ?cap :=
                       \<lparr>word = Some (cstr_of k), tradeouts = Some ts\<rparr>]\<rparr>)) \<and>
       ss_list ts = (if utf8_length k = 1 then [cstr_of k] else []) @ map cstr_of (kept_matches ok 0 ms) \<and>
       ss_size ts \<le> length (strings ts) \<and>
       (\<exists>b. encode_utf8 k = Inr b) \<and> (\<forall>x\<in>set ms. \<exists>b. encode_utf8 x = Inr b)"
    then obtain d ts where d: "d < ?cap"
      and free: "word (entries tt ! ((home ?cap (cstr_of k) + d) mod ?cap)) = None"
      and occ: "\<forall>d'<d. word (entries tt ! ((home ?cap (cstr_of k) + d') mod ?cap)) \<noteq> None"
      and iw: "insert_word ok tt (k, ms) =
         Some (Inr (tt\<lparr>entries := (entries tt)[(home ?cap (cstr_of k) + d) mod ?cap :=
                       \<lparr>word = Some (cstr_of k), tradeouts = Some ts\<rparr>]\<rparr>))"
      and cont: "ss_list ts = (if utf8_length k = 1 then [cstr_of k] else []) @ map cstr_of (kept_matches ok 0 ms)"
        "ss_size ts \<le> length (strings ts)"
        "\<exists>b. encode_utf8 k = Inr b" "\<forall>x\<in>set ms. \<exists>b. encode_utf8 x = Inr b"
      by blast
    let ?i = "(home ?cap (cstr_of k) + d) mod ?cap"
    let ?tt = "tt\<lparr>entries := (entries tt)[?i := \<lparr>word = Some (cstr_of k), tradeouts = Some ts\<rparr>]\<rparr>"
    have i: "?i < ?cap" using p(1) by simp
    have path: "probe_path tt (cstr_of k) ?i" unfolding probe_path_def using d occ by blast
    note step = store_entry_step [OF ok i free path, where ts = ts]
    have "holds ?tt ok k ms"
      unfolding holds_def step(2) using i step(5) cont by blast
    with iw step(1,2,3,4,6,7) have "insert_word ok tt (k, ms) = Some (Inr ?tt) \<and> table_ok ?tt \<and>
       tt_capacity ?tt = tt_capacity tt \<and> card (occupied ?tt) = card (occupied tt) + 1 \<and>
       slot_keys ?tt = insert (cstr_of k) (slot_keys tt) \<and> holds ?tt ok k ms \<and>
       (\<forall>ok0 k0 ms0. holds tt ok0 k0 ms0 \<longrightarrow> holds ?tt ok0 k0 ms0) \<and>
       (unique_slots tt \<and> cstr_of k \<notin> slot_keys tt \<longrightarrow> unique_slots ?tt)"
      by blast
    then show ?thesis by blast
  qed
qed

lemma insert_words_result:
  "table_ok tt \<Longrightarrow> card (occupied tt) + length items \<le> tt_capacity tt \<Longrightarrow>
   (\<exists>e. insert_words malloc_ok i items tt = Some (Inl e)) \<or>
   (\<exists>tt'. insert_words malloc_ok i items tt = Some (Inr tt') \<and> table_ok tt' \<and>
      tt_capacity tt' = tt_capacity tt \<and>
      slot_keys tt' = slot_keys tt \<union> (\<lambda>item. cstr_of (fst item)) ` set items \<and>
      (\<forall>n<length items. holds tt' (malloc_ok (i + n)) (fst (items ! n)) (snd (items ! n))) \<and>
      (\<forall>ok0 k0 ms0. holds tt ok0 k0 ms0 \<longrightarrow> holds tt' ok0 k0 ms0) \<and>
      (unique_slots tt \<and> distinct (map (\<lambda>item. cstr_of (fst item)) items) \<and>
       (\<lambda>item. cstr_of (fst item)) ` set items \<inter> slot_keys tt = {} \<longrightarrow> unique_slots tt'))"
proof (induction items arbitrary: tt i)
  case Nil
  then show ?case by simp
next
  case (Cons item items)
  obtain k ms where item: "item = (k, ms)" by (cases item)
  from Cons.prems(2) have room: "card (occupied tt) < tt_capacity tt" by simp
  from insert_word_step [OF Cons.prems(1) room, of "malloc_ok i" k ms] show ?case
  proof (elim disjE exE conjE)
    fix e assume "insert_word (malloc_ok i) tt (k, ms) = Some (Inl e)"
    then show ?thesis by (simp add: item)
  next
    fix tt1 assume iw: "insert_word (malloc_ok i) tt (k, ms) = Some (Inr tt1)" and ok1: "table_ok tt1"
      and cap1: "tt_capacity tt1 = tt_capacity tt" and card1: "card (occupied tt1) = card (occupied tt) + 1"
      and keys1: "slot_keys tt1 = insert (cstr_of k) (slot_keys tt)" and h1: "holds tt1 (malloc_ok i) k ms"
      and keep1: "\<forall>ok0 k0 ms0. holds tt ok0 k0 ms0 \<longrightarrow> holds tt1 ok0 k0 ms0"
      and u1: "unique_slots tt \<and> cstr_of k \<notin> slot_keys tt \<longrightarrow> unique_slots tt1"
    from Cons.prems(2) cap1 card1 have room1: "card (occupied tt1) + length items \<le> tt_capacity tt1" by simp
    from Cons.IH [OF ok1 room1, of "i + 1"] show ?thesis
    proof (elim disjE exE conjE)
      fix e assume "insert_words malloc_ok (i + 1) items tt1 = Some (Inl e)"
      with iw show ?thesis by (simp add: item)
    next
      fix tt' assume iws: "insert_words malloc_ok (i + 1) items tt1 = Some (Inr tt')" and ok': "table_ok tt'"
        and cap': "tt_capacity tt' = tt_capacity tt1"
        and keys': "slot_keys tt' = slot_keys tt1 \<union> (\<lambda>item. cstr_of (fst item)) ` set items"
        and h': "\<forall>n<length items. holds tt' (malloc_ok (i + 1 + n)) (fst (items ! n)) (snd (items ! n))"
        and keep': "\<forall>ok0 k0 ms0. holds tt1 ok0 k0 ms0 \<longrightarrow> holds tt' ok0 k0 ms0"
        and u': "unique_slots tt1 \<and> distinct (map (\<lambda>item. cstr_of (fst item)) items) \<and>
          (\<lambda>item. cstr_of (fst item)) ` set items \<inter> slot_keys tt1 = {} \<longrightarrow> unique_slots tt'"
      have a: "insert_words malloc_ok i (item # items) tt = Some (Inr tt')" using iw iws by (simp add: item)
      have b: "tt_capacity tt' = tt_capacity tt" using cap' cap1 by simp
      have c: "slot_keys tt' = slot_keys tt \<union> (\<lambda>item. cstr_of (fst item)) ` set (item # items)"
        using keys' keys1 by (auto simp: item)
      have d: "\<forall>n<length (item # items).
          holds tt' (malloc_ok (i + n)) (fst ((item # items) ! n)) (snd ((item # items) ! n))"
      proof (intro allI impI)
        fix n assume n: "n < length (item # items)"
        show "holds tt' (malloc_ok (i + n)) (fst ((item # items) ! n)) (snd ((item # items) ! n))"
        proof (cases n)
          case 0
          with h1 keep' show ?thesis by (simp add: item)
        next
          case (Suc n')
          with n h' have "holds tt' (malloc_ok (i + 1 + n')) (fst (items ! n')) (snd (items ! n'))" by simp
          with Suc show ?thesis by simp
        qed
      qed
      have e: "\<forall>ok0 k0 ms0. holds tt ok0 k0 ms0 \<longrightarrow> holds tt' ok0 k0 ms0" using keep1 keep' by blast
      have f: "unique_slots tt'" if "unique_slots tt"
        "distinct (map (\<lambda>item. cstr_of (fst item)) (item # items))"
        "(\<lambda>item. cstr_of (fst item)) ` set (item # items) \<inter> slot_keys tt = {}"
      proof -
        from that(3) have "cstr_of k \<notin> slot_keys tt" by (auto simp: item)
        with that(1) u1 have "unique_slots tt1" by blast
        moreover from that(2) have "distinct (map (\<lambda>item. cstr_of (fst item)) items)" by simp
        moreover from that(2,3) have "(\<lambda>item. cstr_of (fst item)) ` set items \<inter> slot_keys tt1 = {}"
          unfolding keys1 by (auto simp: item)
        ultimately show ?thesis using u' by blast
      qed
      from a ok' b c d e f show ?thesis by blast
    qed
  qed
qed

lemma create_tradeout_table_result:
  "(\<exists>e. create_tradeout_table malloc_ok m = Some (Inl e)) \<or>
   (\<exists>tt. create_tradeout_table malloc_ok m = Some (Inr tt) \<and> table_ok tt \<and>
      tt_capacity tt = length m * 2 \<and>
      slot_keys tt = (\<lambda>item. cstr_of (fst item)) ` set m \<and>
      (\<forall>n<length m. holds tt (malloc_ok n) (fst (m ! n)) (snd (m ! n))) \<and>
      (distinct (map (\<lambda>item. cstr_of (fst item)) m) \<longrightarrow> unique_slots tt))"
proof -
  let ?tt = "\<lparr>entries = replicate (length m * 2) \<lparr>word = None, tradeouts = None\<rparr>,
              tt_capacity = length m * 2, tt_size = length m\<rparr>"
  have ok: "table_ok ?tt" by (simp add: table_ok_def)
  have occ: "occupied ?tt = {}" by (auto simp: occupied_def)
  have keys: "slot_keys ?tt = {}" by (auto simp: slot_keys_def)
  have u: "unique_slots ?tt" by (simp add: unique_slots_def)
  have room: "card (occupied ?tt) + length m \<le> tt_capacity ?tt" by (simp add: occ)
  have c: "create_tradeout_table malloc_ok m = insert_words malloc_ok 0 m ?tt"
    by (simp add: create_tradeout_table_def Let_def)
  from insert_words_result [OF ok room, of malloc_ok 0] show ?thesis
    unfolding c keys using u by auto
qed




lemma lookup_not_found:
  assumes "0 < tt_capacity tt" "w \<notin> slot_keys tt"
  shows "tradeout_table_lookup tt w = Some (Inr None)"
proof -
  let ?i = "nat (uint (hash_string w) mod int (tt_capacity tt))"
  have i: "?i < tt_capacity tt" using assms(1) by (rule probe_start_less)
  from lookup_loop_result [OF i i, of w] obtain r where
    r: "lookup_loop tt w ?i ?i = Some r" "r \<noteq> None \<longrightarrow> (\<exists>p<tt_capacity tt. word (entries tt ! p) = Some w)"
    by blast
  from assms(2) have "\<not> (\<exists>p<tt_capacity tt. word (entries tt ! p) = Some w)"
    by (simp add: slot_keys_def)
  with r have "r = None" by blast
  with r(1) assms(1) show ?thesis by (simp add: tradeout_table_lookup_def Let_def)
qed


lemma create_tradeout_table_returns: "\<exists>r. create_tradeout_table malloc_ok m = Some r"
  using create_tradeout_table_result [of malloc_ok m] by blast

lemma lookup_built_table:
  assumes "create_tradeout_table malloc_ok m = Some (Inr tt)" and "m \<noteq> []"
    and "w \<notin> (\<lambda>item. cstr_of (fst item)) ` set m"
  shows "tradeout_table_lookup tt w = Some (Inr None)"
proof -
  from create_tradeout_table_result [of malloc_ok m] assms(1)
  have cap: "tt_capacity tt = length m * 2" and keys: "slot_keys tt = (\<lambda>item. cstr_of (fst item)) ` set m"
    by auto
  from cap assms(2) have "0 < tt_capacity tt" by simp
  moreover from keys assms(3) have "w \<notin> slot_keys tt" by simp
  ultimately show ?thesis by (rule lookup_not_found)
qed

subsection \<open>The encoding\<close>

text \<open>
  The encoding of a string without U+0000 has no NUL byte, so that the C string read from
  it is the whole encoding; and two strings with the same encoding are equal.
\<close>

lemma char_of_byte: "0 \<le> n \<Longrightarrow> n < 256 \<Longrightarrow> of_char (char_of (n::int)) = n"
  by simp
















text \<open>
  The test of the source, line 141, is on the number of bytes of the encoded key: the key
  \<^verbatim>\<open>\u00e9\<close> of one character and two bytes is not put into its own set.
\<close>

lemma two_byte_key_not_in_own_set:
  "create_tradeout_table all_allocated [([0xE9], [map of_char ''e''])] = Some (Inr eacute_table) \<and>
   encode_utf8 [0xE9] = Inr [CHR 0xC3, CHR 0xA9] \<and>
   tradeout_table_lookup eacute_table [CHR 0xC3, CHR 0xA9]
     = Some (Inr (Some \<lparr>strings = [''e'', []], ss_size = 1, ss_capacity = 2\<rparr>)) \<and>
   \<not> string_set_contains \<lparr>strings = [''e'', []], ss_size = 1, ss_capacity = 2\<rparr> [CHR 0xC3, CHR 0xA9]"
  by code_simp

subsection \<open>The claims on the table\<close>




text \<open>
  C8. The claim says that the lookup returns "not found" for a word that is no key, also in
  the table of an empty dictionary. That table has no slot, and the lookup computes
  \<^verbatim>\<open>hash_val % 0\<close>: it raises, and so does a scan that needs a lookup. (In a table with at
  least one slot the lookup returns: lemma \<open>tradeout_table_lookup_pos\<close>.)
\<close>

theorem lookup_empty_table_raises:
  "create_tradeout_table all_allocated [] = Some (Inr empty_table) \<and>
   tradeout_table_lookup empty_table ''Bob'' = Some (Inl ZeroDivisionError) \<and>
   parallel_find_matches all_allocated [map of_char ''Bob Smith'', map of_char ''Rob Smith''] [] 1 8 [(0, 0), (0, 1)]
     = Some (Inl ZeroDivisionError)"
  by code_simp

end
